theory Spec2Isabelle
  imports Main
begin

section \<open>Strings of the source language\<close>

text \<open>
  A JavaScript string is a sequence of UTF-16 code units. A code unit is modelled by its
  numeric value (an integer; the values 0 to 65535 are the code units), so that the bullet character U+2022 written by the normaliser and the
  Unicode white space recognised by \<open>\s\<close> and \<open>trim()\<close> have a value of their own.
  String literals of the source are ASCII and are written as HOL strings, mapped to code
  units by \<open>js\<close>.
\<close>

type_synonym jstr = "int list"

definition js :: "string \<Rightarrow> jstr" where
  "js s = map of_char s"

text \<open>
  The regular-expression class \<open>\s\<close> and \<open>String.prototype.trim\<close> use the same set:
  WhiteSpace (TAB, VT, FF, SP, NBSP, ZWNBSP and the category Zs) and LineTerminator
  (LF, CR, LS, PS).
\<close>

definition isLineTerminator :: "int \<Rightarrow> bool" where
  "isLineTerminator c = (c = 10 \<or> c = 13 \<or> c = 8232 \<or> c = 8233)"

definition isSpace :: "int \<Rightarrow> bool" where
  "isSpace c = (c = 9 \<or> c = 11 \<or> c = 12 \<or> c = 32 \<or> c = 160 \<or> c = 5760
      \<or> (8192 \<le> c \<and> c \<le> 8202) \<or> c = 8239 \<or> c = 8287 \<or> c = 12288 \<or> c = 65279
      \<or> isLineTerminator c)"

text \<open>The class \<open>\d\<close> (no unicode flag): the ten ASCII digits.\<close>

definition isDigit :: "int \<Rightarrow> bool" where
  "isDigit c = (48 \<le> c \<and> c \<le> 57)"

text \<open>The class \<open>[-\<bullet>]\<close> of the list-marker pattern: hyphen-minus and U+2022.\<close>

definition isMarker :: "int \<Rightarrow> bool" where
  "isMarker c = (c = 45 \<or> c = 8226)"

text \<open>\<open>trim()\<close>: white space is dropped at both ends.\<close>

definition trim :: "jstr \<Rightarrow> jstr" where
  "trim s = rev (dropWhile isSpace (rev (dropWhile isSpace s)))"

text \<open>
  \<open>toLowerCase()\<close> maps every code point to its lower case of the Unicode case mapping.
  Lower case in the Basic Latin block (below 128) comes from three sources only:
  \<open>A\<close>..\<open>Z\<close> go to \<open>a\<close>..\<open>z\<close>, U+212A (the Kelvin sign, 8490) goes to \<open>k\<close>, and U+0130
  (capital I with dot above, 304) goes to \<open>i\<close> followed by U+0307 (775). Every other code
  unit outside Basic Latin is mapped to code units outside Basic Latin, one at least;
  \<open>lowerUnit\<close> lets such a code unit stand for its own lower case. The parser compares lower
  case with the lower case of the catalog titles only, which lies in Basic Latin, and that
  comparison is the same whatever stands for the lower case of those code units (lemma
  \<open>headerMatches_any_lowering\<close>).
\<close>

definition lowerUnit :: "int \<Rightarrow> jstr" where
  "lowerUnit c =
     (if 65 \<le> c \<and> c \<le> 90 then [c + 32]
      else if c = 8490 then [107]
      else if c = 304 then [105, 775]
      else [c])"

definition toLowerCase :: "jstr \<Rightarrow> jstr" where
  "toLowerCase s = concat (map lowerUnit s)"

text \<open>\<open>s.includes(t)\<close>: \<open>t\<close> occurs in \<open>s\<close> as a contiguous run of code units.\<close>

fun startsWith :: "jstr \<Rightarrow> jstr \<Rightarrow> bool" where
  "startsWith s [] = True"
| "startsWith [] (t # ts) = False"
| "startsWith (c # cs) (t # ts) = (c = t \<and> startsWith cs ts)"

fun strIncludes :: "jstr \<Rightarrow> jstr \<Rightarrow> bool" where
  "strIncludes [] t = (t = [])"
| "strIncludes (c # cs) t = (startsWith (c # cs) t \<or> strIncludes cs t)"

text \<open>\<open>s.split('\n')\<close>: the pieces between line feeds; the empty string gives one empty piece.\<close>

fun split :: "jstr \<Rightarrow> jstr list" where
  "split [] = [[]]"
| "split (c # cs) =
     (if c = 10 then [] # split cs
      else (case split cs of [] \<Rightarrow> [[c]] | l # ls \<Rightarrow> (c # l) # ls))"

section \<open>The global replacements of the normaliser\<close>

text \<open>
  Each \<open>replace(/re/g, r)\<close> scans the string from the left; where the expression matches,
  the match is replaced and the scan goes on behind it, otherwise the code unit is kept
  and the scan moves one position. None of the expressions below matches the empty string.
\<close>

text \<open>\<open>replace(/\*\*/g, '')\<close>\<close>

fun removeBold :: "jstr \<Rightarrow> jstr" where
  "removeBold (a # b # cs) =
     (if a = 42 \<and> b = 42 then removeBold cs else a # removeBold (b # cs))"
| "removeBold cs = cs"

text \<open>\<open>replace(/\*/g, '')\<close>\<close>

definition removeAsterisks :: "jstr \<Rightarrow> jstr" where
  "removeAsterisks s = filter (\<lambda>c. c \<noteq> 42) s"

text \<open>
  \<open>replace(/#{1,6}\s/g, '')\<close>. At a position, \<open>#{1,6}\<close> takes greedily up to six hashes
  and \<open>\s\<close> must follow; giving hashes back leaves a hash where \<open>\s\<close> is needed, so the
  match succeeds exactly when the run of hashes at the position has one to six elements
  and is followed by white space. \<open>matchHeaderMarker\<close> returns what is left behind the match.
\<close>

definition matchHeaderMarker :: "jstr \<Rightarrow> jstr option" where
  "matchHeaderMarker s =
     (let n = length (takeWhile (\<lambda>c. c = 35) s) in
      if 1 \<le> n \<and> n \<le> 6 then
        (case dropWhile (\<lambda>c. c = 35) s of
           [] \<Rightarrow> None
         | w # rest \<Rightarrow> if isSpace w then Some rest else None)
      else None)"

lemma matchHeaderMarker_shorter:
  "matchHeaderMarker s = Some rest \<Longrightarrow> length rest < length s"
proof -
  assume a: "matchHeaderMarker s = Some rest"
  have "length (dropWhile (\<lambda>c. c = 35) s) \<le> length s"
    by (rule length_dropWhile_le)
  with a show ?thesis
    by (auto simp: matchHeaderMarker_def Let_def split: if_splits list.splits)
qed

function removeHeaderMarkers :: "jstr \<Rightarrow> jstr" where
  "removeHeaderMarkers [] = []"
| "removeHeaderMarkers (c # cs) =
     (case matchHeaderMarker (c # cs) of
        Some rest \<Rightarrow> removeHeaderMarkers rest
      | None \<Rightarrow> c # removeHeaderMarkers cs)"
  by pat_completeness auto
termination
  by (relation "measure length") (auto dest: matchHeaderMarker_shorter)

text \<open>
  \<open>replace(/^\s*[-\<bullet>]\s/gm, '\<bullet> ')\<close>. With the flag \<open>m\<close>, \<open>^\<close> holds at the start of the
  string and behind a line terminator. \<open>\s*\<close> takes all white space (line terminators
  too); giving some back leaves white space where a marker is needed. \<open>matchBullet\<close>
  returns the last code unit of the match and what is left behind it.
\<close>

definition matchBullet :: "jstr \<Rightarrow> (int \<times> jstr) option" where
  "matchBullet s =
     (case dropWhile isSpace s of
        m # w # rest \<Rightarrow> if isMarker m \<and> isSpace w then Some (w, rest) else None
      | _ \<Rightarrow> None)"

lemma matchBullet_shorter:
  "matchBullet s = Some (w, rest) \<Longrightarrow> length rest < length s"
proof -
  assume a: "matchBullet s = Some (w, rest)"
  have "length (dropWhile isSpace s) \<le> length s"
    by (rule length_dropWhile_le)
  with a show ?thesis
    by (auto simp: matchBullet_def split: if_splits list.splits)
qed

function normalizeBullets :: "bool \<Rightarrow> jstr \<Rightarrow> jstr" where
  "normalizeBullets atLineStart [] = []"
| "normalizeBullets atLineStart (c # cs) =
     (case (if atLineStart then matchBullet (c # cs) else None) of
        Some (w, rest) \<Rightarrow> 8226 # 32 # normalizeBullets (isLineTerminator w) rest
      | None \<Rightarrow> c # normalizeBullets (isLineTerminator c) cs)"
  by pat_completeness auto
termination
  by (relation "measure (\<lambda>(b, s). length s)")
     (auto dest: matchBullet_shorter split: if_splits)

text \<open>\<open>replace(/\n{3,}/g, '\n\n')\<close>: a run of three or more line feeds becomes two.\<close>

function collapseNewlines :: "jstr \<Rightarrow> jstr" where
  "collapseNewlines [] = []"
| "collapseNewlines (c # cs) =
     (if 3 \<le> length (takeWhile (\<lambda>d. d = 10) (c # cs))
      then 10 # 10 # collapseNewlines (dropWhile (\<lambda>d. d = 10) (c # cs))
      else c # collapseNewlines cs)"
  by pat_completeness auto
termination
proof (relation "measure length")
  fix c :: int and cs :: jstr
  assume "3 \<le> length (takeWhile (\<lambda>d. d = 10) (c # cs))"
  then have "c = 10" by (auto split: if_splits)
  moreover have "length (dropWhile (\<lambda>d. d = 10) cs) \<le> length cs"
    by (rule length_dropWhile_le)
  ultimately show "(dropWhile (\<lambda>d. d = 10) (c # cs), c # cs) \<in> measure length"
    by simp
qed auto

text \<open>
  \<open>replace(/^\s+/gm, '')\<close>: at the start of a line, the whole run of white space (line
  terminators too) is removed.
\<close>

function removeLeadingSpace :: "bool \<Rightarrow> jstr \<Rightarrow> jstr" where
  "removeLeadingSpace atLineStart [] = []"
| "removeLeadingSpace atLineStart (c # cs) =
     (if atLineStart \<and> isSpace c
      then removeLeadingSpace (isLineTerminator (last (takeWhile isSpace (c # cs))))
             (dropWhile isSpace (c # cs))
      else c # removeLeadingSpace (isLineTerminator c) cs)"
  by pat_completeness auto
termination
proof (relation "measure (\<lambda>(b, s). length s)")
  fix atLineStart :: bool and c :: int and cs :: jstr
  assume "atLineStart \<and> isSpace c"
  moreover have "length (dropWhile isSpace cs) \<le> length cs"
    by (rule length_dropWhile_le)
  ultimately show "((isLineTerminator (last (takeWhile isSpace (c # cs))),
      dropWhile isSpace (c # cs)), (atLineStart, c # cs)) \<in> measure (\<lambda>(b, s). length s)"
    by simp
qed auto

section \<open>The business plan generator\<close>

record BusinessPlanInput =
  businessName :: jstr
  industry :: jstr
  businessType :: jstr
  location :: jstr
  targetAudience :: jstr
  uniqueValue :: jstr
  revenueModel :: jstr
  goals :: jstr

record BusinessPlanSection =
  title :: jstr
  content :: jstr

text \<open>
  The first cleaning pass of \<open>parseBusinessPlanSections\<close> (the constant \<open>cleanContent\<close>)
  and \<open>formatSectionContent\<close>.
\<close>

definition cleanContent :: "jstr \<Rightarrow> jstr" where
  "cleanContent s =
     trim (collapseNewlines (normalizeBullets True
       (removeHeaderMarkers (removeAsterisks (removeBold s)))))"

definition formatSectionContent :: "jstr \<Rightarrow> jstr" where
  "formatSectionContent s =
     trim (removeLeadingSpace True (collapseNewlines (normalizeBullets True
       (removeAsterisks (removeBold s)))))"

definition sectionHeaders :: "jstr list" where
  "sectionHeaders = map js
     [''Executive Summary'',
      ''Company Description'',
      ''Market Analysis'',
      ''Organization & Management'',
      ''Products or Services'',
      ''Marketing & Sales Strategy'',
      ''Financial Projections'',
      ''Risk Analysis'',
      ''Implementation Timeline'',
      ''Appendices'']"

text \<open>\<open>trimmedLine.match(/^\d+\./)\<close> finds a match: digits, one at least, then a period.\<close>

definition startsWithOrdinal :: "jstr \<Rightarrow> bool" where
  "startsWithOrdinal t =
     (takeWhile isDigit t \<noteq> [] \<and>
      (case dropWhile isDigit t of [] \<Rightarrow> False | d # rest \<Rightarrow> d = 46))"

text \<open>The callback of \<open>sectionHeaders.find\<close>, on the trimmed line.\<close>

definition headerMatches :: "jstr \<Rightarrow> jstr \<Rightarrow> bool" where
  "headerMatches trimmedLine header =
     (strIncludes (toLowerCase trimmedLine) (toLowerCase header) \<and>
      (startsWithOrdinal trimmedLine \<or> toLowerCase trimmedLine = toLowerCase header))"

text \<open>
  \<open>matchedHeader\<close>: the first catalog title the callback accepts, \<open>None\<close> for
  \<open>undefined\<close>. Every catalog title is a non-empty string, so the test
  \<open>if (matchedHeader)\<close> is the test for \<open>Some\<close>.
\<close>

definition matchedHeader :: "jstr \<Rightarrow> jstr option" where
  "matchedHeader line = List.find (headerMatches (trim line)) sectionHeaders"

text \<open>The variables of the loop: \<open>sections\<close>, \<open>currentSection\<close>, \<open>currentContent\<close>.\<close>

record parse_state =
  sections :: "BusinessPlanSection list"
  currentSection :: jstr
  currentContent :: jstr

text \<open>
  \<open>if (currentSection && currentContent.trim()) sections.push(...)\<close>: a string is truthy
  when it is not empty. The result is the array after the statement.
\<close>

definition pushCurrent :: "parse_state \<Rightarrow> BusinessPlanSection list" where
  "pushCurrent st =
     (if currentSection st \<noteq> [] \<and> trim (currentContent st) \<noteq> []
      then sections st @
        [\<lparr>title = currentSection st,
          content = formatSectionContent (trim (currentContent st))\<rparr>]
      else sections st)"

text \<open>The body of \<open>for (const line of lines)\<close>.\<close>

definition processLine :: "parse_state \<Rightarrow> jstr \<Rightarrow> parse_state" where
  "processLine st line =
     (case matchedHeader line of
        Some header \<Rightarrow>
          \<lparr>sections = pushCurrent st, currentSection = header, currentContent = []\<rparr>
      | None \<Rightarrow> st\<lparr>currentContent := currentContent st @ line @ [10]\<rparr>)"

definition initialState :: parse_state where
  "initialState = \<lparr>sections = [], currentSection = [], currentContent = []\<rparr>"

text \<open>The sections after the loop and the push of the last section.\<close>

definition scanLines :: "jstr list \<Rightarrow> BusinessPlanSection list" where
  "scanLines ls = pushCurrent (foldl processLine initialState ls)"

definition parseBusinessPlanSections :: "jstr \<Rightarrow> BusinessPlanSection list" where
  "parseBusinessPlanSections text =
     (let cleaned = cleanContent text;
          parsed = scanLines (split cleaned)
      in if length parsed = 0
         then [\<lparr>title = js ''Business Plan'', content = formatSectionContent cleaned\<rparr>]
         else parsed)"


text \<open>
  The text the parser works with is the input after both passes, as in the fallback branch
  \<open>formatSectionContent(cleanContent)\<close>: emphasis markers and header markers stripped,
  list markers made canonical, line breaks collapsed, leading white space of lines
  stripped, the whole trimmed.
\<close>

definition normalizeText :: "jstr \<Rightarrow> jstr" where
  "normalizeText text = formatSectionContent (cleanContent text)"

text \<open>\<open>createBusinessPlanPrompt\<close>: the template literal, piece by piece.\<close>

definition createBusinessPlanPrompt :: "BusinessPlanInput \<Rightarrow> jstr" where
  "createBusinessPlanPrompt input =
     js ''Create a comprehensive, professional business plan for the following business:\<newline>\<newline>**Business Details:**\<newline>- ''
     @ (js ''Business Name: '' @ businessName input)
     @ js ''\<newline>- '' @ (js ''Industry: '' @ industry input)
     @ js ''\<newline>- '' @ (js ''Business Type: '' @ businessType input)
     @ js ''\<newline>- '' @ (js ''Location: '' @ location input)
     @ js ''\<newline>- '' @ (js ''Target Audience: '' @ targetAudience input)
     @ js ''\<newline>- '' @ (js ''Unique Value Proposition: '' @ uniqueValue input)
     @ js ''\<newline>- '' @ (js ''Revenue Model: '' @ revenueModel input)
     @ js ''\<newline>- '' @ (js ''Goals: '' @ goals input)
     @ js ''\<newline>\<newline>Please create a detailed, investor-ready business plan that includes:\<newline>- Market research specific to ''
     @ industry input @ js '' in '' @ location input
     @ js ''\<newline>- Competitive analysis and positioning\<newline>- Realistic financial projections for 3-5 years\<newline>- Marketing strategies tailored to ''
     @ targetAudience input
     @ js ''\<newline>- Implementation roadmap aligned with the goal: ''
     @ goals input
     @ js ''\<newline>- Risk assessment and mitigation strategies\<newline>- Industry-specific insights and trends\<newline>\<newline>The plan should be professional, comprehensive, and ready for presentation to investors, lenders, or stakeholders. Include specific data, metrics, and actionable strategies where possible.''"

text \<open>
  \<open>GeneratedBusinessPlan\<close>. The fields carry the prefix \<open>plan_\<close>, since \<open>title\<close> and
  \<open>industry\<close> are fields of the records above. \<open>plan_createdAt\<close> holds the date as
  \<open>toLocaleDateString()\<close> renders it, which depends on the locale of the browser.
\<close>

datatype PlanStatus = draft | complete

record GeneratedBusinessPlan =
  plan_id :: jstr
  plan_title :: jstr
  plan_industry :: jstr
  plan_createdAt :: jstr
  plan_sections :: "BusinessPlanSection list"
  plan_status :: PlanStatus

text \<open>\<open>formatBusinessPlanForExport\<close>; \<open>s.repeat(n)\<close> of a one-unit string is \<open>replicate\<close>.\<close>

definition exportSection :: "BusinessPlanSection \<Rightarrow> jstr" where
  "exportSection section =
     title section @ [10] @ replicate (length (title section)) 45 @ [10, 10]
     @ content section @ [10, 10]"

definition formatBusinessPlanForExport :: "GeneratedBusinessPlan \<Rightarrow> jstr" where
  "formatBusinessPlanForExport businessPlan =
     plan_title businessPlan @ [10]
     @ js ''Industry: '' @ plan_industry businessPlan @ [10]
     @ js ''Created: '' @ plan_createdAt businessPlan @ [10, 10]
     @ replicate 50 61 @ [10, 10]
     @ concat (map exportSection (plan_sections businessPlan))"

section \<open>The header rule of the specification\<close>

text \<open>
  The rule in the words of the specification. A line shows a catalog title as a header
  when its trimmed, lowercased text contains the lowercased title as a substring, and the
  trimmed line either starts with one or more digits followed by a period or is, up to
  case, that title. A line is a section header when it shows some catalog title so. The
  predicates are evaluated through the equations \<open>hasOrdinalShape_code\<close> and
  \<open>lineShowsTitle_code\<close>, which are proved below.
\<close>

definition hasOrdinalShape :: "jstr \<Rightarrow> bool" where
  "hasOrdinalShape t = (\<exists>ds rest. ds \<noteq> [] \<and> list_all isDigit ds \<and> t = ds @ 46 # rest)"

definition lineShowsTitle :: "jstr \<Rightarrow> jstr \<Rightarrow> bool" where
  "lineShowsTitle line t =
     ((\<exists>a b. toLowerCase (trim line) = a @ toLowerCase t @ b) \<and>
      (hasOrdinalShape (trim line) \<or> toLowerCase (trim line) = toLowerCase t))"

definition isSectionHeaderLine :: "jstr \<Rightarrow> bool" where
  "isSectionHeaderLine line = (\<exists>t \<in> set sectionHeaders. lineShowsTitle line t)"

text \<open>
  Lower case as a comparison in Basic Latin. \<open>lowersToLatin\<close> holds of the code units whose
  lower case is given by \<open>lowerUnit\<close> exactly; a string is \<open>opaque\<close> when it is not empty
  and lies outside Basic Latin, as the lower case of every other code unit does. Two
  strings are \<open>sameLatin\<close> when they differ in opaque stretches only.
\<close>

definition lowersToLatin :: "int \<Rightarrow> bool" where
  "lowersToLatin c = (c < 128 \<or> c = 304 \<or> c = 8490)"

definition opaque :: "jstr \<Rightarrow> bool" where
  "opaque p = (p \<noteq> [] \<and> list_all (\<lambda>u. 128 \<le> u) p)"

definition basicLatin :: "jstr \<Rightarrow> bool" where
  "basicLatin h = list_all (\<lambda>u. u < 128) h"

inductive sameLatin :: "jstr \<Rightarrow> jstr \<Rightarrow> bool" where
  sameLatin_Nil: "sameLatin [] []"
| sameLatin_unit: "sameLatin x y \<Longrightarrow> sameLatin (c # x) (c # y)"
| sameLatin_block:
    "sameLatin x y \<Longrightarrow> opaque us \<Longrightarrow> opaque vs \<Longrightarrow> sameLatin (us @ x) (vs @ y)"


section \<open>Normal forms of the normaliser\<close>

text \<open>
  \<open>lineStartsClean b s\<close>: no line of \<open>s\<close> starts with white space (the flag tells whether
  \<open>s\<close> begins at the start of a line).
\<close>

fun lineStartsClean :: "bool \<Rightarrow> jstr \<Rightarrow> bool" where
  "lineStartsClean b [] = True"
| "lineStartsClean b (c # cs) = ((\<not> b \<or> \<not> isSpace c) \<and> lineStartsClean (isLineTerminator c) cs)"

text \<open>
  \<open>settled b s\<close>: at every start of a line, the list-marker pattern either does not match
  or matches exactly the canonical marker, a bullet and a space.
\<close>

fun settled :: "bool \<Rightarrow> jstr \<Rightarrow> bool" where
  "settled b [] = True"
| "settled b (c # cs) =
     ((\<not> b \<or> matchBullet (c # cs) = None \<or> (c = 8226 \<and> (\<exists>t. cs = 32 # t)))
      \<and> settled (isLineTerminator c) cs)"


section \<open>The sections as blocks of lines\<close>

text \<open>
  The accumulator of the specification: the lines before the first header, and for every
  header line, in the order of the lines, the matched title with the lines up to the next
  header, each followed by a line feed.
\<close>

fun headerBlocks :: "jstr list \<Rightarrow> jstr \<times> (jstr \<times> jstr) list" where
  "headerBlocks [] = ([], [])"
| "headerBlocks (line # rest) =
     (case headerBlocks rest of
        (pre, blocks) \<Rightarrow>
          (case matchedHeader line of
             Some header \<Rightarrow> ([], (header, pre) # blocks)
           | None \<Rightarrow> (line @ [10] @ pre, blocks)))"

definition sectionBlocks :: "jstr list \<Rightarrow> (jstr \<times> jstr) list" where
  "sectionBlocks ls = snd (headerBlocks ls)"

text \<open>A block is emitted as a section when its title and its trimmed content are not empty.\<close>

definition emitSection :: "jstr \<times> jstr \<Rightarrow> BusinessPlanSection list" where
  "emitSection b =
     (if fst b \<noteq> [] \<and> trim (snd b) \<noteq> []
      then [\<lparr>title = fst b, content = formatSectionContent (trim (snd b))\<rparr>]
      else [])"

text \<open>
  The blocks that are emitted, those with content that is not blank, and the section a
  block is emitted as.
\<close>

definition liveBlocks :: "jstr list \<Rightarrow> (jstr \<times> jstr) list" where
  "liveBlocks ls = filter (\<lambda>b. trim (snd b) \<noteq> []) (sectionBlocks ls)"

definition sectionOf :: "jstr \<times> jstr \<Rightarrow> BusinessPlanSection" where
  "sectionOf b = \<lparr>title = fst b, content = formatSectionContent (trim (snd b))\<rparr>"

section \<open>Lines, outlines and plain text\<close>

text \<open>The lines that count: trimmed, blank lines left out.\<close>

definition essence :: "jstr list \<Rightarrow> jstr list" where
  "essence ls = filter (\<lambda>l. l \<noteq> []) (map trim ls)"


text \<open>
  \<open>outline\<close>: whether the lines before the first header hold any text, and for every
  header line its matched title and whether the lines up to the next header hold any text.
\<close>

fun outline :: "jstr list \<Rightarrow> bool \<times> (jstr \<times> bool) list" where
  "outline [] = (False, [])"
| "outline (line # rest) =
     (case outline rest of
        (pre, blocks) \<Rightarrow>
          (case matchedHeader line of
             Some header \<Rightarrow> (False, (header, pre) # blocks)
           | None \<Rightarrow> (trim line \<noteq> [] \<or> pre, blocks)))"

text \<open>
  \<open>noListMarker afterSpace s\<close>: no hyphen or bullet of \<open>s\<close> that stands behind white space
  (or at the start, when the flag is set) is followed by white space: the list-marker
  pattern matches nowhere in \<open>s\<close>.
\<close>

fun noListMarker :: "bool \<Rightarrow> jstr \<Rightarrow> bool" where
  "noListMarker afterSpace (c # w # r) =
     (\<not> (afterSpace \<and> isMarker c \<and> isSpace w) \<and> noListMarker (isSpace c) (w # r))"
| "noListMarker afterSpace s = True"


text \<open>
  Plain text: no asterisk, no hash, and no list marker when a line feed follows the text.
\<close>

definition plainText :: "jstr \<Rightarrow> bool" where
  "plainText s = (42 \<notin> set s \<and> 35 \<notin> set s \<and> noListMarker True (s @ [10]))"



text \<open>
  A plain title: no line feed, asterisk, hash, hyphen or bullet, two code units at least.
\<close>

definition plainTitle :: "jstr \<Rightarrow> bool" where
  "plainTitle t =
     (10 \<notin> set t \<and> 42 \<notin> set t \<and> 35 \<notin> set t \<and> (\<forall>c \<in> set t. \<not> isMarker c) \<and> 2 \<le> length t)"

text \<open>
  The parts of the export: the heading (title, industry and date lines), the rule of
  fifty equals signs, and for each section what follows its title line.
\<close>

definition exportHeading :: "GeneratedBusinessPlan \<Rightarrow> jstr" where
  "exportHeading businessPlan =
     plan_title businessPlan @ [10]
     @ js ''Industry: '' @ plan_industry businessPlan @ [10]
     @ js ''Created: '' @ plan_createdAt businessPlan"

definition sectionBody :: "BusinessPlanSection \<Rightarrow> jstr" where
  "sectionBody section =
     replicate (length (title section)) 45 @ [10, 10] @ content section @ [10]"


definition ruleLine :: jstr where
  "ruleLine = replicate 50 61"

text \<open>
  The lines that a section gives in the export: its title line, the rule of dashes of the
  length of the title, and the lines behind the rule.
\<close>

definition sectionLines :: "BusinessPlanSection \<Rightarrow> jstr list \<Rightarrow> jstr list" where
  "sectionLines section body =
     title section # replicate (length (title section)) 45 # body"



section \<open>Substrings\<close>

lemma startsWith_iff: "startsWith s t = (\<exists>b. s = t @ b)"
  by (induction s t rule: startsWith.induct) auto

lemma strIncludes_iff: "strIncludes s t = (\<exists>a b. s = a @ t @ b)"
proof (induction s)
  case Nil
  then show ?case by auto
next
  case (Cons c cs)
  show ?case
  proof
    assume "strIncludes (c # cs) t"
    then consider "startsWith (c # cs) t" | "strIncludes cs t" by auto
    then show "\<exists>a b. c # cs = a @ t @ b"
    proof cases
      case 1
      then obtain b where "c # cs = t @ b" by (auto simp: startsWith_iff)
      then have "c # cs = [] @ t @ b" by simp
      then show ?thesis by blast
    next
      case 2
      then obtain a b where "cs = a @ t @ b" using Cons.IH by auto
      then have "c # cs = (c # a) @ t @ b" by simp
      then show ?thesis by blast
    qed
  next
    assume "\<exists>a b. c # cs = a @ t @ b"
    then obtain a b where ab: "c # cs = a @ t @ b" by blast
    show "strIncludes (c # cs) t"
    proof (cases a)
      case Nil
      with ab have "startsWith (c # cs) t" by (auto simp: startsWith_iff)
      then show ?thesis by simp
    next
      case (Cons x xs)
      with ab have "cs = xs @ t @ b" by simp
      then have "strIncludes cs t" using Cons.IH by blast
      then show ?thesis by simp
    qed
  qed
qed

lemma strIncludes_here: "strIncludes (t @ b) t"
  unfolding strIncludes_iff by (rule exI[of _ "[]"]) auto

lemma strIncludes_later: "strIncludes s t \<Longrightarrow> strIncludes (a @ s) t"
  unfolding strIncludes_iff
proof -
  assume "\<exists>x b. s = x @ t @ b"
  then obtain x b where "s = x @ t @ b" by blast
  then have "a @ s = (a @ x) @ t @ b" by simp
  then show "\<exists>x b. a @ s = x @ t @ b" by blast
qed

lemma strIncludes_part: "strIncludes s (l @ v) \<Longrightarrow> strIncludes s v"
  unfolding strIncludes_iff
proof -
  assume "\<exists>a b. s = a @ (l @ v) @ b"
  then obtain a b where "s = a @ (l @ v) @ b" by blast
  then have "s = (a @ l) @ v @ b" by simp
  then show "\<exists>a b. s = a @ v @ b" by blast
qed

section \<open>The header rule as the code tests it\<close>

lemma hasOrdinalShape_code [code]: "hasOrdinalShape t = startsWithOrdinal t"
proof
  assume "hasOrdinalShape t"
  then obtain ds rest where ds: "ds \<noteq> []" "list_all isDigit ds" and t: "t = ds @ 46 # rest"
    unfolding hasOrdinalShape_def by blast
  from ds(2) have all: "\<forall>d \<in> set ds. isDigit d" by (simp add: list_all_iff)
  have n: "\<not> isDigit 46" by (simp add: isDigit_def)
  from all n have "takeWhile isDigit t = ds" unfolding t by (simp add: takeWhile_append2)
  moreover from all n have "dropWhile isDigit t = 46 # rest"
    unfolding t by (simp add: dropWhile_append2)
  ultimately show "startsWithOrdinal t" using ds(1) by (simp add: startsWithOrdinal_def)
next
  assume a: "startsWithOrdinal t"
  then obtain rest where d: "dropWhile isDigit t = 46 # rest"
    by (auto simp: startsWithOrdinal_def split: list.splits)
  have "t = takeWhile isDigit t @ dropWhile isDigit t" by simp
  with d have "t = takeWhile isDigit t @ 46 # rest" by simp
  moreover have "list_all isDigit (takeWhile isDigit t)"
    by (auto simp: list_all_iff dest: set_takeWhileD)
  moreover from a have "takeWhile isDigit t \<noteq> []" by (simp add: startsWithOrdinal_def)
  ultimately show "hasOrdinalShape t" unfolding hasOrdinalShape_def by blast
qed

lemma lineShowsTitle_code [code]: "lineShowsTitle line t = headerMatches (trim line) t"
  by (simp add: lineShowsTitle_def headerMatches_def strIncludes_iff hasOrdinalShape_code)

section \<open>Lower case outside Basic Latin\<close>

lemma sameLatin_sym: "sameLatin x y \<Longrightarrow> sameLatin y x"
  by (induction rule: sameLatin.induct) (auto intro: sameLatin.intros)

lemma sameLatin_prefix: "sameLatin x y \<Longrightarrow> sameLatin (p @ x) (p @ y)"
  by (induction p) (auto intro: sameLatin.intros)

lemma opaque_not_included:
  assumes "list_all (\<lambda>u. 128 \<le> u) us" and "basicLatin h" and "h \<noteq> []"
    and "strIncludes (us @ x) h"
  shows "strIncludes x h"
  using assms
proof (induction us)
  case Nil
  then show ?case by simp
next
  case (Cons u us)
  from Cons.prems(2,3) obtain a r where h: "h = a # r" and a: "a < 128"
    by (cases h) (auto simp: basicLatin_def)
  from Cons.prems(1) have "128 \<le> u" by simp
  with a h have "\<not> startsWith ((u # us) @ x) h" by simp
  with Cons.prems(4) have "strIncludes (us @ x) h" by simp
  with Cons show ?case by simp
qed

text \<open>
  The tests of the header rule against a string of Basic Latin give the same on strings
  that differ in opaque stretches only.
\<close>

lemma sameLatin_tests:
  "sameLatin x y \<Longrightarrow>
     (\<forall>h. basicLatin h \<longrightarrow> startsWith x h \<longrightarrow> startsWith y h)
     \<and> (\<forall>h. basicLatin h \<longrightarrow> h \<noteq> [] \<longrightarrow> strIncludes x h \<longrightarrow> strIncludes y h)
     \<and> (\<forall>h. basicLatin h \<longrightarrow> x = h \<longrightarrow> y = h)"
proof (induction rule: sameLatin.induct)
  case sameLatin_Nil
  show ?case by simp
next
  case (sameLatin_unit x y c)
  have 1: "\<forall>h. basicLatin h \<longrightarrow> startsWith (c # x) h \<longrightarrow> startsWith (c # y) h"
  proof (intro allI impI)
    fix h assume "basicLatin h" "startsWith (c # x) h"
    with sameLatin_unit.IH show "startsWith (c # y) h"
      by (cases h) (auto simp: basicLatin_def)
  qed
  have 2: "\<forall>h. basicLatin h \<longrightarrow> h \<noteq> [] \<longrightarrow> strIncludes (c # x) h \<longrightarrow> strIncludes (c # y) h"
    using 1 sameLatin_unit.IH by auto
  have 3: "\<forall>h. basicLatin h \<longrightarrow> c # x = h \<longrightarrow> c # y = h"
    using sameLatin_unit.IH by (auto simp: basicLatin_def)
  from 1 2 3 show ?case by blast
next
  case (sameLatin_block x y us vs)
  from sameLatin_block.hyps(2) obtain u ur where us: "us = u # ur" and u: "128 \<le> u"
    and ur: "list_all (\<lambda>u. 128 \<le> u) us"
    by (cases us) (auto simp: opaque_def)
  have 1: "\<forall>h. basicLatin h \<longrightarrow> startsWith (us @ x) h \<longrightarrow> startsWith (vs @ y) h"
  proof (intro allI impI)
    fix h assume "basicLatin h" "startsWith (us @ x) h"
    with us u show "startsWith (vs @ y) h"
      by (cases h) (auto simp: basicLatin_def)
  qed
  have 2: "\<forall>h. basicLatin h \<longrightarrow> h \<noteq> [] \<longrightarrow> strIncludes (us @ x) h \<longrightarrow> strIncludes (vs @ y) h"
  proof (intro allI impI)
    fix h assume h: "basicLatin h" "h \<noteq> []" "strIncludes (us @ x) h"
    from opaque_not_included[OF ur h] have "strIncludes x h" .
    with sameLatin_block.IH h have "strIncludes y h" by blast
    then show "strIncludes (vs @ y) h" by (rule strIncludes_later)
  qed
  have 3: "\<forall>h. basicLatin h \<longrightarrow> us @ x = h \<longrightarrow> vs @ y = h"
    using us u by (auto simp: basicLatin_def)
  from 1 2 3 show ?case by blast
qed

lemma sameLatin_concat:
  "list_all2 (\<lambda>p q. p = q \<or> (opaque p \<and> opaque q)) ps qs \<Longrightarrow>
     sameLatin (concat ps) (concat qs)"
proof (induction rule: list_all2_induct)
  case Nil
  show ?case by (simp add: sameLatin_Nil)
next
  case (Cons p ps q qs)
  then show ?case by (auto intro: sameLatin_prefix sameLatin_block)
qed

lemma lowerUnit_opaque: "\<not> lowersToLatin c \<Longrightarrow> opaque (lowerUnit c)"
  by (auto simp: lowersToLatin_def opaque_def lowerUnit_def)

lemma catalog_lower_basicLatin:
  "\<forall>h \<in> set sectionHeaders. basicLatin (toLowerCase h) \<and> toLowerCase h \<noteq> []"
  by code_simp

text \<open>
  Let the lower case of the trimmed line \<open>t\<close> be given piece by piece: for a code unit
  that lowers to Basic Latin the piece of \<open>lowerUnit\<close>, for any other code unit any opaque
  string (which may depend on the neighbours, as for a surrogate pair or a final sigma).
  The callback of \<open>find\<close> gives on that lower case what \<open>headerMatches\<close> gives.
\<close>

lemma headerMatches_any_lowering:
  assumes pieces: "list_all2
      (\<lambda>c p. if lowersToLatin c then p = lowerUnit c else opaque p) t ps"
    and h: "h \<in> set sectionHeaders"
  shows "(strIncludes (concat ps) (toLowerCase h)
          \<and> (startsWithOrdinal t \<or> concat ps = toLowerCase h))
       = headerMatches t h"
proof -
  have "list_all2 (\<lambda>p q. p = q \<or> (opaque p \<and> opaque q)) ps (map lowerUnit t)"
    unfolding list_all2_conv_all_nth
  proof (intro conjI allI impI)
    show "length ps = length (map lowerUnit t)"
      using pieces by (simp add: list_all2_lengthD)
    fix i assume i: "i < length ps"
    then have it: "i < length t" using pieces by (simp add: list_all2_lengthD)
    from pieces it
    have c: "if lowersToLatin (t ! i) then ps ! i = lowerUnit (t ! i) else opaque (ps ! i)"
      by (simp add: list_all2_conv_all_nth)
    show "ps ! i = map lowerUnit t ! i \<or> (opaque (ps ! i) \<and> opaque (map lowerUnit t ! i))"
    proof (cases "lowersToLatin (t ! i)")
      case True
      with c it show ?thesis by simp
    next
      case False
      with c it lowerUnit_opaque[OF False] show ?thesis by simp
    qed
  qed
  then have s: "sameLatin (concat ps) (toLowerCase t)"
    unfolding toLowerCase_def by (rule sameLatin_concat)
  then have s': "sameLatin (toLowerCase t) (concat ps)" by (rule sameLatin_sym)
  from h catalog_lower_basicLatin
  have b: "basicLatin (toLowerCase h)" "toLowerCase h \<noteq> []" by auto
  have "strIncludes (concat ps) (toLowerCase h) = strIncludes (toLowerCase t) (toLowerCase h)"
    using sameLatin_tests[OF s] sameLatin_tests[OF s'] b by blast
  moreover have "(concat ps = toLowerCase h) = (toLowerCase t = toLowerCase h)"
    using sameLatin_tests[OF s] sameLatin_tests[OF s'] b by blast
  ultimately show ?thesis by (simp add: headerMatches_def)
qed

section \<open>The loop of the parser\<close>

lemma lineShowsTitle_headerMatches: "lineShowsTitle line = headerMatches (trim line)"
  by (rule ext) (rule lineShowsTitle_code)

lemma matchedHeader_find: "matchedHeader line = List.find (lineShowsTitle line) sectionHeaders"
  by (simp add: matchedHeader_def lineShowsTitle_headerMatches)

lemma matchedHeader_None_iff: "(matchedHeader line = None) = (\<not> isSectionHeaderLine line)"
  by (auto simp: matchedHeader_find isSectionHeaderLine_def find_None_iff)

lemma matchedHeader_Some:
  "matchedHeader line = Some h \<Longrightarrow> h \<in> set sectionHeaders \<and> headerMatches (trim line) h"
  by (auto simp: matchedHeader_def find_Some_iff)

lemma sectionHeaders_nonempty: "h \<in> set sectionHeaders \<Longrightarrow> h \<noteq> []"
  by (auto simp: sectionHeaders_def js_def)

lemma pushCurrent_emit:
  "pushCurrent st = sections st @ emitSection (currentSection st, currentContent st)"
  by (simp add: pushCurrent_def emitSection_def)

text \<open>
  From any state, the loop and the final push give the sections of the state, then the
  open section with the lines before the next header added, then the blocks of the
  remaining headers.
\<close>

lemma scan_general:
  "pushCurrent (foldl processLine st ls) =
     sections st
     @ emitSection (currentSection st, currentContent st @ fst (headerBlocks ls))
     @ concat (map emitSection (snd (headerBlocks ls)))"
proof (induction ls arbitrary: st)
  case Nil
  show ?case by (simp add: pushCurrent_emit)
next
  case (Cons l ls)
  obtain pre blocks where hb: "headerBlocks ls = (pre, blocks)" by (cases "headerBlocks ls")
  show ?case
  proof (cases "matchedHeader l")
    case None
    then have step: "processLine st l = st\<lparr>currentContent := currentContent st @ l @ [10]\<rparr>"
      by (simp add: processLine_def)
    show ?thesis
      unfolding foldl_Cons step Cons.IH
      using None hb by simp
  next
    case (Some h)
    then have step: "processLine st l =
        \<lparr>sections = pushCurrent st, currentSection = h, currentContent = []\<rparr>"
      by (simp add: processLine_def)
    show ?thesis
      unfolding foldl_Cons step Cons.IH
      using Some hb by (simp add: pushCurrent_emit)
  qed
qed

lemma emitSection_no_title: "emitSection ([], c) = []"
  by (simp add: emitSection_def)

lemma scanLines_blocks: "scanLines ls = concat (map emitSection (sectionBlocks ls))"
  unfolding scanLines_def scan_general sectionBlocks_def
  by (simp add: initialState_def emitSection_no_title)


lemma headerBlocks_titles:
  "map fst (snd (headerBlocks ls)) = List.map_filter matchedHeader ls"
  by (induction ls) (auto simp: List.map_filter_simps split: prod.splits option.splits)

lemma headerBlocks_titles_in_catalog:
  "(h, c) \<in> set (snd (headerBlocks ls)) \<Longrightarrow> h \<in> set sectionHeaders"
proof -
  assume "(h, c) \<in> set (snd (headerBlocks ls))"
  then have "h \<in> set (map fst (snd (headerBlocks ls)))" by force
  then have "h \<in> set (List.map_filter matchedHeader ls)" by (simp add: headerBlocks_titles)
  then obtain l where "matchedHeader l = Some h"
    by (auto simp: List.map_filter_def)
  then show ?thesis by (simp add: matchedHeader_Some)
qed

lemma headerBlocks_skip_preamble:
  "\<forall>l \<in> set pre. matchedHeader l = None \<Longrightarrow>
     snd (headerBlocks (pre @ rest)) = snd (headerBlocks rest)"
  by (induction pre) (auto split: prod.splits)

lemma concat_map_single:
  "\<forall>b \<in> set bs. f b = [g b] \<Longrightarrow> concat (map f bs) = map g bs"
  by (induction bs) auto

section \<open>The passes of the normaliser\<close>

declare removeHeaderMarkers.simps(2) [simp del]
declare normalizeBullets.simps(2) [simp del]
declare collapseNewlines.simps(2) [simp del]
declare removeLeadingSpace.simps(2) [simp del]

lemma isLineTerminator_isSpace: "isLineTerminator c \<Longrightarrow> isSpace c"
  by (simp add: isSpace_def)

lemma removeBold_no_star: "42 \<notin> set s \<Longrightarrow> removeBold s = s"
  by (induction s rule: removeBold.induct) auto

lemma removeAsterisks_no_star: "42 \<notin> set s \<Longrightarrow> removeAsterisks s = s"
  by (induction s) (auto simp: removeAsterisks_def)

lemma removeAsterisks_star_free: "42 \<notin> set (removeAsterisks s)"
  by (simp add: removeAsterisks_def)

lemma matchHeaderMarker_no_hash: "c \<noteq> 35 \<Longrightarrow> matchHeaderMarker (c # cs) = None"
  by (simp add: matchHeaderMarker_def)

lemma removeHeaderMarkers_no_hash: "35 \<notin> set s \<Longrightarrow> removeHeaderMarkers s = s"
  by (induction s) (auto simp: matchHeaderMarker_no_hash removeHeaderMarkers.simps(2))

lemma matchHeaderMarker_set:
  "matchHeaderMarker s = Some rest \<Longrightarrow> set rest \<subseteq> set s"
proof -
  assume a: "matchHeaderMarker s = Some rest"
  have "set (dropWhile (\<lambda>c. c = 35) s) \<subseteq> set s"
    by (auto dest: set_dropWhileD)
  with a show ?thesis
    by (auto simp: matchHeaderMarker_def Let_def split: if_splits list.splits)
qed

lemma set_removeHeaderMarkers: "set (removeHeaderMarkers s) \<subseteq> set s"
proof (induction s rule: removeHeaderMarkers.induct)
  case 1
  show ?case by simp
next
  case (2 c cs)
  show ?case
  proof (cases "matchHeaderMarker (c # cs)")
    case None
    with 2 show ?thesis by (auto simp: removeHeaderMarkers.simps(2))
  next
    case (Some rest)
    with 2 matchHeaderMarker_set[OF Some] show ?thesis
      by (auto simp: removeHeaderMarkers.simps(2))
  qed
qed

lemma matchBullet_set:
  "matchBullet s = Some (w, rest) \<Longrightarrow> set rest \<subseteq> set s"
proof -
  assume a: "matchBullet s = Some (w, rest)"
  have "set (dropWhile isSpace s) \<subseteq> set s"
    by (auto dest: set_dropWhileD)
  with a show ?thesis
    by (auto simp: matchBullet_def split: if_splits list.splits)
qed

lemma normalizeBullets_match:
  "b \<Longrightarrow> matchBullet (c # cs) = Some (w, rest) \<Longrightarrow>
     normalizeBullets b (c # cs) = 8226 # 32 # normalizeBullets (isLineTerminator w) rest"
  by (simp add: normalizeBullets.simps(2))

lemma normalizeBullets_keep:
  "\<not> b \<or> matchBullet (c # cs) = None \<Longrightarrow>
     normalizeBullets b (c # cs) = c # normalizeBullets (isLineTerminator c) cs"
  by (auto simp: normalizeBullets.simps(2))

lemma normalizeBullets_cases [case_names Nil Match Keep]:
  assumes "\<And>b. P b []"
    and "\<And>b c cs w rest. b \<Longrightarrow> matchBullet (c # cs) = Some (w, rest) \<Longrightarrow>
           P (isLineTerminator w) rest \<Longrightarrow> P b (c # cs)"
    and "\<And>b c cs. \<not> b \<or> matchBullet (c # cs) = None \<Longrightarrow>
           P (isLineTerminator c) cs \<Longrightarrow> P b (c # cs)"
  shows "P b s"
proof (induction b s rule: normalizeBullets.induct)
  case (1 b)
  show ?case by (rule assms(1))
next
  case (2 b c cs)
  show ?case
  proof (cases "matchBullet (c # cs)")
    case None
    then have n: "(if b then matchBullet (c # cs) else None) = None" by simp
    from None have d: "\<not> b \<or> matchBullet (c # cs) = None" by simp
    show ?thesis by (rule assms(3)[OF d 2(1)[OF n]])
  next
    case (Some p)
    obtain w rest where p: "p = (w, rest)" by (cases p)
    show ?thesis
    proof (cases b)
      case True
      with Some p have "(if b then matchBullet (c # cs) else None) = Some (w, rest)" by simp
      from 2(2)[OF this refl] have r: "P (isLineTerminator w) rest" .
      show ?thesis by (rule assms(2)[OF True Some[unfolded p] r])
    next
      case False
      then have n: "(if b then matchBullet (c # cs) else None) = None" by simp
      from False have d: "\<not> b \<or> matchBullet (c # cs) = None" by simp
      show ?thesis by (rule assms(3)[OF d 2(1)[OF n]])
    qed
  qed
qed

lemma set_normalizeBullets: "set (normalizeBullets b s) \<subseteq> set s \<union> {8226, 32}"
proof (induction b s rule: normalizeBullets_cases)
  case (Nil b)
  show ?case by simp
next
  case (Match b c cs w rest)
  from matchBullet_set[OF Match(2)] Match(3) show ?case
    unfolding normalizeBullets_match[OF Match(1,2)] by auto
next
  case (Keep b c cs)
  then show ?case
    unfolding normalizeBullets_keep[OF Keep(1)] by auto
qed

lemma set_collapseNewlines: "set (collapseNewlines s) \<subseteq> set s"
proof (induction s rule: collapseNewlines.induct)
  case 1
  show ?case by simp
next
  case (2 c cs)
  show ?case
  proof (cases "3 \<le> length (takeWhile (\<lambda>d. d = 10) (c # cs))")
    case True
    then have c: "c = 10" by (auto split: if_splits)
    have "set (dropWhile (\<lambda>d. d = 10) (c # cs)) \<subseteq> set (c # cs)"
      by (auto dest: set_dropWhileD)
    with 2(1)[OF True] True c show ?thesis by (auto simp: collapseNewlines.simps(2))
  next
    case False
    with 2(2)[OF False] show ?thesis by (auto simp: collapseNewlines.simps(2))
  qed
qed

lemma set_removeLeadingSpace: "set (removeLeadingSpace b s) \<subseteq> set s"
proof (induction b s rule: removeLeadingSpace.induct)
  case (1 b)
  show ?case by simp
next
  case (2 b c cs)
  show ?case
  proof (cases "b \<and> isSpace c")
    case True
    have "set (dropWhile isSpace (c # cs)) \<subseteq> set (c # cs)"
      by (auto dest: set_dropWhileD)
    with 2(1)[OF True] True show ?thesis by (auto simp: removeLeadingSpace.simps(2))
  next
    case False
    with 2(2)[OF False] show ?thesis by (auto simp: removeLeadingSpace.simps(2))
  qed
qed

lemma set_trim: "set (trim s) \<subseteq> set s"
  by (auto simp: trim_def dest!: set_dropWhileD)

lemma set_removeBold: "set (removeBold s) \<subseteq> set s"
  by (induction s rule: removeBold.induct) auto

lemma collapseNewlines_run:
  "3 \<le> length (takeWhile (\<lambda>d. d = 10) (c # cs)) \<Longrightarrow>
     collapseNewlines (c # cs) = 10 # 10 # collapseNewlines (dropWhile (\<lambda>d. d = 10) (c # cs))"
  by (simp add: collapseNewlines.simps(2))

lemma collapseNewlines_keep:
  "\<not> 3 \<le> length (takeWhile (\<lambda>d. d = 10) (c # cs)) \<Longrightarrow>
     collapseNewlines (c # cs) = c # collapseNewlines cs"
  by (simp add: collapseNewlines.simps(2))

lemma removeLeadingSpace_strip:
  "b \<Longrightarrow> isSpace c \<Longrightarrow>
     removeLeadingSpace b (c # cs) =
       removeLeadingSpace (isLineTerminator (last (takeWhile isSpace (c # cs))))
         (dropWhile isSpace (c # cs))"
  by (simp add: removeLeadingSpace.simps(2))

lemma removeLeadingSpace_keep:
  "\<not> (b \<and> isSpace c) \<Longrightarrow>
     removeLeadingSpace b (c # cs) = c # removeLeadingSpace (isLineTerminator c) cs"
  by (auto simp: removeLeadingSpace.simps(2))

lemma lineStartsClean_head:
  "lineStartsClean b z \<Longrightarrow> z = [] \<or> \<not> isSpace (hd z) \<Longrightarrow> lineStartsClean b' z"
  by (cases z) auto

lemma removeLeadingSpace_head:
  "s = [] \<or> \<not> isSpace (hd s) \<Longrightarrow>
     removeLeadingSpace b s = [] \<or> \<not> isSpace (hd (removeLeadingSpace b s))"
  by (cases s) (auto simp: removeLeadingSpace_keep)

lemma dropWhile_head: "dropWhile P s = [] \<or> \<not> P (hd (dropWhile P s))"
  using hd_dropWhile by blast

lemma lineStartsClean_removeLeadingSpace: "lineStartsClean b (removeLeadingSpace b s)"
proof (induction b s rule: removeLeadingSpace.induct)
  case (1 b)
  show ?case by simp
next
  case (2 b c cs)
  show ?case
  proof (cases "b \<and> isSpace c")
    case True
    let ?b' = "isLineTerminator (last (takeWhile isSpace (c # cs)))"
    let ?r = "dropWhile isSpace (c # cs)"
    have ih: "lineStartsClean ?b' (removeLeadingSpace ?b' ?r)" by (rule 2(1)[OF True])
    have "removeLeadingSpace ?b' ?r = [] \<or> \<not> isSpace (hd (removeLeadingSpace ?b' ?r))"
      by (rule removeLeadingSpace_head) (rule dropWhile_head)
    with ih have "lineStartsClean b (removeLeadingSpace ?b' ?r)"
      by (rule lineStartsClean_head)
    with True show ?thesis by (simp only: removeLeadingSpace_strip)
  next
    case False
    then have e: "removeLeadingSpace b (c # cs) = c # removeLeadingSpace (isLineTerminator c) cs"
      by (rule removeLeadingSpace_keep)
    from False 2(2)[OF False] show ?thesis unfolding e by auto
  qed
qed

lemma lineStartsClean_prefix: "lineStartsClean b (p @ q) \<Longrightarrow> lineStartsClean b p"
  by (induction p arbitrary: b) auto

lemma trim_prefix: "\<exists>q. dropWhile isSpace s = trim s @ q"
proof -
  let ?a = "dropWhile isSpace s"
  have "?a = rev (takeWhile isSpace (rev ?a) @ dropWhile isSpace (rev ?a))" by simp
  also have "\<dots> = rev (dropWhile isSpace (rev ?a)) @ rev (takeWhile isSpace (rev ?a))"
    by (rule rev_append)
  finally have "?a = trim s @ rev (takeWhile isSpace (rev ?a))"
    unfolding trim_def .
  then show ?thesis by blast
qed

lemma lineStartsClean_trim: "lineStartsClean True s \<Longrightarrow> lineStartsClean True (trim s)"
proof -
  assume a: "lineStartsClean True s"
  then have "dropWhile isSpace s = s" by (cases s) auto
  with trim_prefix[of s] obtain q where "s = trim s @ q" by auto
  with a lineStartsClean_prefix[of True "trim s" q] show ?thesis by simp
qed

lemma lineStartsClean_collapseNewlines: "lineStartsClean b s \<Longrightarrow> collapseNewlines s = s"
proof (induction s arbitrary: b)
  case Nil
  show ?case by simp
next
  case (Cons c cs)
  have "\<not> 3 \<le> length (takeWhile (\<lambda>d. d = 10) (c # cs))"
  proof
    assume r: "3 \<le> length (takeWhile (\<lambda>d. d = 10) (c # cs))"
    then have c: "c = 10" by (auto split: if_splits)
    with r obtain t where "cs = 10 # t" by (cases cs) (auto split: if_splits)
    with c Cons.prems show False by (simp add: isLineTerminator_def isSpace_def)
  qed
  then have "collapseNewlines (c # cs) = c # collapseNewlines cs"
    by (rule collapseNewlines_keep)
  moreover from Cons.prems have "lineStartsClean (isLineTerminator c) cs" by simp
  ultimately show ?case using Cons.IH by simp
qed

lemma lineStartsClean_removeLeadingSpace_id:
  "lineStartsClean b s \<Longrightarrow> removeLeadingSpace b s = s"
proof (induction s arbitrary: b)
  case Nil
  show ?case by simp
next
  case (Cons c cs)
  then have k: "\<not> (b \<and> isSpace c)" by auto
  from Cons.prems have "lineStartsClean (isLineTerminator c) cs" by simp
  with Cons.IH show ?case by (simp only: removeLeadingSpace_keep[OF k])
qed

lemma trim_head: "trim s = [] \<or> \<not> isSpace (hd (trim s))"
proof (cases "trim s")
  case Nil
  then show ?thesis by simp
next
  case (Cons x xs)
  from trim_prefix[of s] obtain q where q: "dropWhile isSpace s = trim s @ q" by blast
  with Cons have "hd (dropWhile isSpace s) = x" by simp
  moreover from q Cons have "dropWhile isSpace s \<noteq> []" by simp
  ultimately have "\<not> isSpace x" using hd_dropWhile by metis
  with Cons show ?thesis by simp
qed

lemma trim_idem: "trim (trim s) = trim s"
proof -
  have "dropWhile isSpace (trim s) = trim s"
    using trim_head[of s] by (cases "trim s") auto
  then have "trim (trim s) = rev (dropWhile isSpace (rev (trim s)))"
    by (simp add: trim_def)
  also have "\<dots> = trim s"
    by (simp add: trim_def dropWhile_idem)
  finally show ?thesis .
qed

lemma matchBullet_Nil [simp]: "matchBullet [] = None"
  by (simp add: matchBullet_def)

lemma normalizeBullets_False:
  "normalizeBullets False (c # cs) = c # normalizeBullets (isLineTerminator c) cs"
  by (simp add: normalizeBullets.simps(2))

lemma dropWhile_append_nonempty:
  "dropWhile P p \<noteq> [] \<Longrightarrow> dropWhile P (p @ q) = dropWhile P p @ q"
  by (induction p) auto

lemma matchBullet_space: "isSpace c \<Longrightarrow> matchBullet (c # cs) = matchBullet cs"
  by (simp add: matchBullet_def)

lemma matchBullet_nonspace:
  "\<not> isSpace c \<Longrightarrow>
     matchBullet (c # cs) =
       (case cs of [] \<Rightarrow> None
        | w # rest \<Rightarrow> if isMarker c \<and> isSpace w then Some (w, rest) else None)"
  by (simp add: matchBullet_def split: list.splits)

lemma marker_not_space: "isMarker c \<Longrightarrow> \<not> isSpace c"
  by (auto simp: isMarker_def isSpace_def isLineTerminator_def)

lemma matchBullet_dropWhile:
  "(\<And>c. Q c \<Longrightarrow> isSpace c) \<Longrightarrow> matchBullet (dropWhile Q s) = matchBullet s"
  by (induction s) (auto simp: matchBullet_space)

lemma settled_weaken: "settled True z \<Longrightarrow> settled b z"
  by (cases z) auto

lemma settled_strengthen: "settled b z \<Longrightarrow> matchBullet z = None \<Longrightarrow> settled True z"
  by (cases z) auto

lemma settled_fixpoint: "settled b w \<Longrightarrow> normalizeBullets b w = w"
proof (induction w arbitrary: b)
  case Nil
  show ?case by simp
next
  case (Cons c cs)
  from Cons.prems have tl: "settled (isLineTerminator c) cs" by simp
  show ?case
  proof (cases "b \<and> matchBullet (c # cs) \<noteq> None")
    case True
    with Cons.prems obtain t where c: "c = 8226" and cs: "cs = 32 # t" by auto
    have m: "matchBullet (c # cs) = Some (32, t)"
      unfolding c cs by (simp add: matchBullet_def isSpace_def isMarker_def isLineTerminator_def)
    from True have b: b by simp
    have nl: "\<not> isLineTerminator 32" by (simp add: isLineTerminator_def)
    from tl have "settled False cs" by (cases cs) auto
    then have "normalizeBullets False cs = cs" by (rule Cons.IH)
    then have "normalizeBullets False t = t"
      unfolding cs normalizeBullets_False using nl by simp
    then show ?thesis
      unfolding normalizeBullets_match[OF b m] using nl c cs by simp
  next
    case False
    then have k: "\<not> b \<or> matchBullet (c # cs) = None" by blast
    from Cons.IH[OF tl] show ?thesis
      unfolding normalizeBullets_keep[OF k] by simp
  qed
qed

lemma normalizeBullets_head:
  "\<exists>z. normalizeBullets False (e # r) = e # z"
  by (simp add: normalizeBullets_False)

lemma matchBullet_normalizeBullets:
  "matchBullet x = None \<Longrightarrow> matchBullet (normalizeBullets b x) = None"
proof (induction x arbitrary: b)
  case Nil
  then show ?case by simp
next
  case (Cons c cs)
  then have k: "\<not> b \<or> matchBullet (c # cs) = None" by simp
  show ?case
  proof (cases "isSpace c")
    case True
    with Cons.prems have "matchBullet cs = None" by (simp add: matchBullet_space)
    then have "matchBullet (normalizeBullets (isLineTerminator c) cs) = None"
      by (rule Cons.IH)
    with True show ?thesis
      unfolding normalizeBullets_keep[OF k] by (simp add: matchBullet_space)
  next
    case False
    then have nl: "\<not> isLineTerminator c" using isLineTerminator_isSpace by blast
    show ?thesis
    proof (cases cs)
      case Nil
      with False show ?thesis
        unfolding normalizeBullets_keep[OF k] by (simp add: matchBullet_nonspace)
    next
      case (Cons e r)
      with False Cons.prems nl show ?thesis
        unfolding normalizeBullets_keep[OF k]
        by (simp add: matchBullet_nonspace normalizeBullets_False split: if_splits)
    qed
  qed
qed

lemma settled_normalizeBullets: "settled b (normalizeBullets b x)"
proof (induction b x rule: normalizeBullets_cases)
  case (Nil b)
  show ?case by simp
next
  case (Match b c cs w rest)
  from Match(3) have "settled False (normalizeBullets (isLineTerminator w) rest)"
    by (cases "isLineTerminator w") (auto intro: settled_weaken)
  then show ?case
    unfolding normalizeBullets_match[OF Match(1,2)]
    by (simp add: isLineTerminator_def)
next
  case (Keep b c cs)
  show ?case
  proof (cases b)
    case True
    with Keep(1) have "matchBullet (c # cs) = None" by simp
    then have "matchBullet (normalizeBullets b (c # cs)) = None"
      by (rule matchBullet_normalizeBullets)
    then have "matchBullet (c # normalizeBullets (isLineTerminator c) cs) = None"
      unfolding normalizeBullets_keep[OF Keep(1)] .
    with Keep(2) show ?thesis
      unfolding normalizeBullets_keep[OF Keep(1)] by simp
  next
    case False
    with Keep(2) show ?thesis
      unfolding normalizeBullets_keep[OF Keep(1)] by simp
  qed
qed

lemma matchBullet_append:
  "matchBullet p = Some (w, r) \<Longrightarrow> matchBullet (p @ q) = Some (w, r @ q)"
proof -
  assume a: "matchBullet p = Some (w, r)"
  then obtain m w' r' where d: "dropWhile isSpace p = m # w' # r'"
    by (auto simp: matchBullet_def split: list.splits if_splits)
  with a have m: "isMarker m \<and> isSpace w' \<and> w = w' \<and> r = r'"
    by (simp add: matchBullet_def split: if_splits)
  from d have "dropWhile isSpace (p @ q) = dropWhile isSpace p @ q"
    by (intro dropWhile_append_nonempty) simp
  then have "dropWhile isSpace (p @ q) = m # w' # r' @ q" unfolding d by simp
  then have "matchBullet (p @ q) =
      (if isMarker m \<and> isSpace w' then Some (w', r' @ q) else None)"
    unfolding matchBullet_def by (simp del: dropWhile_append)
  with m show ?thesis by simp
qed

lemma settled_prefix: "settled b (p @ q) \<Longrightarrow> settled b p"
proof (induction p arbitrary: b)
  case Nil
  show ?case by simp
next
  case (Cons c cs)
  then have tl: "settled (isLineTerminator c) cs" by simp
  have "\<not> b \<or> matchBullet (c # cs) = None \<or> (c = 8226 \<and> (\<exists>t. cs = 32 # t))"
  proof (cases "matchBullet (c # cs)")
    case None
    then show ?thesis by simp
  next
    case (Some p)
    obtain w r where "p = (w, r)" by (cases p)
    with Some matchBullet_append[of "c # cs" w r q]
    have "matchBullet (c # cs @ q) = Some (w, r @ q)" by simp
    with Cons.prems have "\<not> b \<or> (c = 8226 \<and> (\<exists>t. cs @ q = 32 # t))" by auto
    moreover have "cs \<noteq> []" using Some by (auto simp: matchBullet_def split: if_splits)
    ultimately show ?thesis by (cases cs) auto
  qed
  with tl show ?case by simp
qed

lemma settled_after_terminator:
  "settled b (x # s) \<Longrightarrow> isLineTerminator x \<Longrightarrow> settled True s"
  by simp

lemma settled_skip_terminators:
  "settled True s \<Longrightarrow> (\<And>c. Q c \<Longrightarrow> isLineTerminator c) \<Longrightarrow> settled True (dropWhile Q s)"
  by (induction s) auto

lemma settled_space_head:
  "settled True (x # s) \<Longrightarrow> isSpace x \<Longrightarrow> matchBullet (x # s) = None"
  by (auto simp: isSpace_def isLineTerminator_def)

lemma settled_skip_space: "settled b s \<Longrightarrow> \<exists>b'. settled b' (dropWhile isSpace s)"
  by (induction s arbitrary: b) auto

lemma settled_dropWhile_space: "settled True s \<Longrightarrow> settled True (dropWhile isSpace s)"
proof (cases s)
  case Nil
  then show ?thesis by simp
next
  case (Cons x xs)
  assume a: "settled True s"
  show ?thesis
  proof (cases "isSpace x")
    case True
    from a True have "matchBullet s = None" unfolding Cons by (rule settled_space_head)
    then have n: "matchBullet (dropWhile isSpace s) = None"
      by (simp add: matchBullet_dropWhile)
    from settled_skip_space[OF a] obtain b' where "settled b' (dropWhile isSpace s)" by blast
    then show ?thesis using n by (rule settled_strengthen)
  next
    case False
    with a Cons show ?thesis by simp
  qed
qed

lemma settled_trim: "settled True s \<Longrightarrow> settled True (trim s)"
proof -
  assume "settled True s"
  then have a: "settled True (dropWhile isSpace s)" by (rule settled_dropWhile_space)
  from trim_prefix[of s] obtain q where "dropWhile isSpace s = trim s @ q" by blast
  with a show ?thesis using settled_prefix by metis
qed

lemma collapseNewlines_head: "\<exists>z. collapseNewlines (e # r) = e # z"
proof (cases "3 \<le> length (takeWhile (\<lambda>d. d = 10) (e # r))")
  case True
  then have "e = 10" by (auto split: if_splits)
  with collapseNewlines_run[OF True] show ?thesis by simp
next
  case False
  from collapseNewlines_keep[OF False] show ?thesis by blast
qed

lemma matchBullet_collapseNewlines:
  "matchBullet s = None \<Longrightarrow> matchBullet (collapseNewlines s) = None"
proof (induction s rule: collapseNewlines.induct)
  case 1
  then show ?case by simp
next
  case (2 c cs)
  show ?case
  proof (cases "3 \<le> length (takeWhile (\<lambda>d. d = 10) (c # cs))")
    case True
    have sp: "\<And>d. d = (10::int) \<Longrightarrow> isSpace d" by (simp add: isSpace_def isLineTerminator_def)
    from 2(3) have "matchBullet (dropWhile (\<lambda>d. d = 10) (c # cs)) = None"
      by (simp only: matchBullet_dropWhile[of "\<lambda>d. d = 10", OF sp])
    from 2(1)[OF True this] show ?thesis
      unfolding collapseNewlines_run[OF True]
      by (simp add: matchBullet_space isSpace_def isLineTerminator_def)
  next
    case False
    show ?thesis
    proof (cases "isSpace c")
      case True
      with 2(3) have "matchBullet cs = None" by (simp add: matchBullet_space)
      from 2(2)[OF False this] True show ?thesis
        unfolding collapseNewlines_keep[OF False] by (simp add: matchBullet_space)
    next
      case ns: False
      show ?thesis
      proof (cases cs)
        case Nil
        with ns show ?thesis
          unfolding collapseNewlines_keep[OF False] by (simp add: matchBullet_nonspace)
      next
        case (Cons e r)
        from collapseNewlines_head[of e r] obtain z where z: "collapseNewlines (e # r) = e # z"
          by blast
        from collapseNewlines_keep[OF False]
        have "collapseNewlines (c # cs) = c # collapseNewlines (e # r)" unfolding Cons .
        then have e1: "collapseNewlines (c # cs) = c # e # z" unfolding z .
        from 2(3) ns Cons have "matchBullet (c # e # z) = None"
          by (simp add: matchBullet_nonspace split: if_splits)
        then show ?thesis unfolding e1 .
      qed
    qed
  qed
qed

lemma settled_collapseNewlines: "settled b s \<Longrightarrow> settled b (collapseNewlines s)"
proof (induction s arbitrary: b rule: collapseNewlines.induct)
  case 1
  show ?case by simp
next
  case (2 c cs)
  show ?case
  proof (cases "3 \<le> length (takeWhile (\<lambda>d. d = 10) (c # cs))")
    case True
    then have c: "c = 10" by (auto split: if_splits)
    with True obtain cs' where cs: "cs = 10 # cs'" by (cases cs) (auto split: if_splits)
    have lt: "isLineTerminator 10" by (simp add: isLineTerminator_def)
    have sp: "isSpace 10" by (simp add: isSpace_def isLineTerminator_def)
    let ?rest = "dropWhile (\<lambda>d. d = 10) (c # cs)"
    from "2.prems" c lt have s1: "settled True cs" by simp
    then have n1: "matchBullet cs = None" unfolding cs using sp by (rule settled_space_head)
    have r: "?rest = dropWhile (\<lambda>d. d = 10) cs" using c by simp
    have "settled True ?rest" unfolding r
      by (rule settled_skip_terminators[OF s1]) (simp add: isLineTerminator_def)
    from "2.IH"(1)[OF True this] have s2: "settled True (collapseNewlines ?rest)" .
    have "matchBullet ?rest = None" unfolding r using n1
      by (simp add: matchBullet_dropWhile isSpace_def isLineTerminator_def)
    then have n2: "matchBullet (collapseNewlines ?rest) = None"
      by (rule matchBullet_collapseNewlines)
    from s2 n2 show ?thesis
      unfolding collapseNewlines_run[OF True]
      using sp lt by (simp add: matchBullet_space)
  next
    case False
    from "2.prems" have tl: "settled (isLineTerminator c) cs" by simp
    from "2.IH"(2)[OF False tl] have s: "settled (isLineTerminator c) (collapseNewlines cs)" .
    have "\<not> b \<or> matchBullet (c # collapseNewlines cs) = None
        \<or> (c = 8226 \<and> (\<exists>t. collapseNewlines cs = 32 # t))"
    proof (cases "\<not> b \<or> matchBullet (c # cs) = None")
      case True
      then show ?thesis
      proof
        assume "\<not> b" then show ?thesis by simp
      next
        assume "matchBullet (c # cs) = None"
        then have "matchBullet (collapseNewlines (c # cs)) = None"
          by (rule matchBullet_collapseNewlines)
        then show ?thesis unfolding collapseNewlines_keep[OF False] by simp
      qed
    next
      case F: False
      with "2.prems" obtain t where t: "c = 8226" "cs = 32 # t" by auto
      from collapseNewlines_head[of 32 t] t show ?thesis by auto
    qed
    with s show ?thesis unfolding collapseNewlines_keep[OF False] by simp
  qed
qed

lemma matchBullet_removeLeadingSpace:
  "s = [] \<or> \<not> isSpace (hd s) \<Longrightarrow> matchBullet s = None \<Longrightarrow>
     matchBullet (removeLeadingSpace b s) = None"
proof (cases s)
  case Nil
  then show ?thesis by simp
next
  case (Cons c cs)
  assume h: "s = [] \<or> \<not> isSpace (hd s)" and n: "matchBullet s = None"
  from h Cons have ns: "\<not> isSpace c" by simp
  then have nl: "\<not> isLineTerminator c" using isLineTerminator_isSpace by blast
  from ns have k: "\<not> (b \<and> isSpace c)" by simp
  show ?thesis
  proof (cases cs)
    case Nil
    with ns show ?thesis unfolding Cons removeLeadingSpace_keep[OF k]
      by (simp add: matchBullet_nonspace)
  next
    case (Cons e r)
    have k2: "\<not> (isLineTerminator c \<and> isSpace e)" using nl by simp
    from n ns show ?thesis
      unfolding \<open>s = c # cs\<close> Cons removeLeadingSpace_keep[OF k] removeLeadingSpace_keep[OF k2]
      by (simp add: matchBullet_nonspace split: if_splits)
  qed
qed

lemma settled_removeLeadingSpace: "settled b s \<Longrightarrow> settled b (removeLeadingSpace b s)"
proof (induction b s rule: removeLeadingSpace.induct)
  case (1 b)
  show ?case by simp
next
  case (2 b c cs)
  show ?case
  proof (cases "b \<and> isSpace c")
    case True
    let ?b' = "isLineTerminator (last (takeWhile isSpace (c # cs)))"
    let ?rest = "dropWhile isSpace (c # cs)"
    from True "2.prems" have a: "settled True (c # cs)" by simp
    then have "settled True ?rest" by (rule settled_dropWhile_space)
    then have "settled ?b' ?rest" by (rule settled_weaken)
    from "2.IH"(1)[OF True this] have s: "settled ?b' (removeLeadingSpace ?b' ?rest)" .
    from a True have "matchBullet (c # cs) = None" using settled_space_head by blast
    then have "matchBullet ?rest = None" by (simp only: matchBullet_dropWhile)
    with dropWhile_head[of isSpace "c # cs"]
    have "matchBullet (removeLeadingSpace ?b' ?rest) = None"
      by (rule matchBullet_removeLeadingSpace)
    with s have "settled True (removeLeadingSpace ?b' ?rest)" by (rule settled_strengthen)
    then have "settled b (removeLeadingSpace ?b' ?rest)" by (rule settled_weaken)
    with True show ?thesis by (simp only: removeLeadingSpace_strip)
  next
    case False
    from "2.prems" have tl: "settled (isLineTerminator c) cs" by simp
    from "2.IH"(2)[OF False tl]
    have s: "settled (isLineTerminator c) (removeLeadingSpace (isLineTerminator c) cs)" .
    have "\<not> b \<or> matchBullet (c # removeLeadingSpace (isLineTerminator c) cs) = None
        \<or> (c = 8226 \<and> (\<exists>t. removeLeadingSpace (isLineTerminator c) cs = 32 # t))"
    proof (cases b)
      case F: False
      then show ?thesis by simp
    next
      case True
      with False have ns: "\<not> isSpace c" by simp
      then have nl: "\<not> isLineTerminator c" using isLineTerminator_isSpace by blast
      show ?thesis
      proof (cases "matchBullet (c # cs)")
        case None
        have "matchBullet (removeLeadingSpace b (c # cs)) = None"
          by (rule matchBullet_removeLeadingSpace) (use ns None in auto)
        then show ?thesis unfolding removeLeadingSpace_keep[OF False] by simp
      next
        case (Some p)
        with True "2.prems" obtain t where t: "c = 8226" "cs = 32 # t" by auto
        have "\<not> (isLineTerminator c \<and> isSpace 32)" using nl by simp
        from removeLeadingSpace_keep[OF this] t show ?thesis by simp
      qed
    qed
    with s show ?thesis unfolding removeLeadingSpace_keep[OF False] by simp
  qed
qed

lemma normalizeText_star_free: "42 \<notin> set (normalizeText s)"
proof -
  let ?x = "removeAsterisks (removeBold (cleanContent s))"
  have "set (normalizeText s) \<subseteq> set (normalizeBullets True ?x)"
    unfolding normalizeText_def formatSectionContent_def
    using set_trim set_removeLeadingSpace set_collapseNewlines by (meson subset_trans)
  also have "\<dots> \<subseteq> set ?x \<union> {8226, 32}" by (rule set_normalizeBullets)
  finally show ?thesis using removeAsterisks_star_free[of "removeBold (cleanContent s)"] by auto
qed

lemma normalizeText_settled: "settled True (normalizeText s)"
  unfolding normalizeText_def formatSectionContent_def
  by (intro settled_trim settled_removeLeadingSpace settled_collapseNewlines
      settled_normalizeBullets)

lemma normalizeText_lineStartsClean: "lineStartsClean True (normalizeText s)"
  unfolding normalizeText_def formatSectionContent_def
  by (intro lineStartsClean_trim lineStartsClean_removeLeadingSpace)

lemma normalizeText_trimmed: "trim (normalizeText s) = normalizeText s"
  unfolding normalizeText_def formatSectionContent_def by (rule trim_idem)

lemma cleanContent_hash_free: "35 \<notin> set s \<Longrightarrow> 35 \<notin> set (cleanContent s)"
proof -
  assume a: "35 \<notin> set s"
  let ?x = "removeHeaderMarkers (removeAsterisks (removeBold s))"
  have "set ?x \<subseteq> set s"
    using set_removeHeaderMarkers set_removeBold by (fastforce simp: removeAsterisks_def)
  with a have x: "35 \<notin> set ?x" by auto
  have "set (cleanContent s) \<subseteq> set (normalizeBullets True ?x)"
    unfolding cleanContent_def using set_trim set_collapseNewlines by (meson subset_trans)
  also have "\<dots> \<subseteq> set ?x \<union> {8226, 32}" by (rule set_normalizeBullets)
  finally show ?thesis using x by auto
qed

lemma normalizeText_hash_free: "35 \<notin> set s \<Longrightarrow> 35 \<notin> set (normalizeText s)"
proof -
  assume "35 \<notin> set s"
  then have a: "35 \<notin> set (cleanContent s)" by (rule cleanContent_hash_free)
  let ?x = "removeAsterisks (removeBold (cleanContent s))"
  have "set ?x \<subseteq> set (cleanContent s)"
    using set_removeBold by (fastforce simp: removeAsterisks_def)
  with a have x: "35 \<notin> set ?x" by auto
  have "set (normalizeText s) \<subseteq> set (normalizeBullets True ?x)"
    unfolding normalizeText_def formatSectionContent_def
    using set_trim set_removeLeadingSpace set_collapseNewlines by (meson subset_trans)
  also have "\<dots> \<subseteq> set ?x \<union> {8226, 32}" by (rule set_normalizeBullets)
  finally show ?thesis using x by auto
qed

lemma normal_form_fixed:
  assumes star: "42 \<notin> set y" and hash: "removeHeaderMarkers y = y"
    and st: "settled True y" and cl: "lineStartsClean True y" and tr: "trim y = y"
  shows "formatSectionContent (cleanContent y) = y"
proof -
  have b: "normalizeBullets True y = y" using st by (rule settled_fixpoint)
  have c: "collapseNewlines y = y" using cl by (rule lineStartsClean_collapseNewlines)
  have l: "removeLeadingSpace True y = y" using cl by (rule lineStartsClean_removeLeadingSpace_id)
  have "cleanContent y = y"
    unfolding cleanContent_def
    by (simp add: removeBold_no_star[OF star] removeAsterisks_no_star[OF star] hash b c tr)
  moreover have "formatSectionContent y = y"
    unfolding formatSectionContent_def
    by (simp add: removeBold_no_star[OF star] removeAsterisks_no_star[OF star] b c l tr)
  ultimately show ?thesis by simp
qed


text \<open>No pass makes the text longer, and a header marker that is removed makes it shorter.\<close>

lemma length_removeBold: "length (removeBold s) \<le> length s"
  by (induction s rule: removeBold.induct) auto

lemma length_removeAsterisks: "length (removeAsterisks s) \<le> length s"
  by (simp add: removeAsterisks_def)

lemma length_removeHeaderMarkers: "length (removeHeaderMarkers s) \<le> length s"
proof (induction s rule: removeHeaderMarkers.induct)
  case 1
  show ?case by simp
next
  case (2 c cs)
  show ?case
  proof (cases "matchHeaderMarker (c # cs)")
    case None
    with 2 show ?thesis by (simp add: removeHeaderMarkers.simps(2))
  next
    case (Some rest)
    with 2 matchHeaderMarker_shorter[OF Some] show ?thesis
      by (simp add: removeHeaderMarkers.simps(2))
  qed
qed

lemma removeHeaderMarkers_shrinks:
  "removeHeaderMarkers s \<noteq> s \<Longrightarrow> length (removeHeaderMarkers s) < length s"
proof (induction s)
  case Nil
  then show ?case by simp
next
  case (Cons c cs)
  show ?case
  proof (cases "matchHeaderMarker (c # cs)")
    case None
    with Cons show ?thesis by (simp add: removeHeaderMarkers.simps(2))
  next
    case (Some rest)
    have "length (removeHeaderMarkers rest) \<le> length rest" by (rule length_removeHeaderMarkers)
    with matchHeaderMarker_shorter[OF Some] Some show ?thesis
      by (simp add: removeHeaderMarkers.simps(2))
  qed
qed

lemma matchBullet_shorter2:
  "matchBullet s = Some (w, rest) \<Longrightarrow> length rest + 2 \<le> length s"
proof -
  assume a: "matchBullet s = Some (w, rest)"
  have "length (dropWhile isSpace s) \<le> length s" by (rule length_dropWhile_le)
  with a show ?thesis
    by (auto simp: matchBullet_def split: if_splits list.splits)
qed

lemma length_normalizeBullets: "length (normalizeBullets b s) \<le> length s"
proof (induction b s rule: normalizeBullets_cases)
  case (Nil b)
  show ?case by simp
next
  case (Match b c cs w rest)
  from matchBullet_shorter2[OF Match(2)] Match(3) show ?case
    unfolding normalizeBullets_match[OF Match(1,2)] by simp
next
  case (Keep b c cs)
  then show ?case unfolding normalizeBullets_keep[OF Keep(1)] by simp
qed

lemma length_collapseNewlines: "length (collapseNewlines s) \<le> length s"
proof (induction s rule: collapseNewlines.induct)
  case 1
  show ?case by simp
next
  case (2 c cs)
  show ?case
  proof (cases "3 \<le> length (takeWhile (\<lambda>d. d = 10) (c # cs))")
    case True
    have "length (c # cs) = length (takeWhile (\<lambda>d. d = 10) (c # cs))
        + length (dropWhile (\<lambda>d. d = 10) (c # cs))"
      by (simp only: length_append[symmetric] takeWhile_dropWhile_id)
    with True 2(1)[OF True] show ?thesis
      unfolding collapseNewlines_run[OF True] by simp
  next
    case False
    with 2(2)[OF False] show ?thesis unfolding collapseNewlines_keep[OF False] by simp
  qed
qed

lemma length_removeLeadingSpace: "length (removeLeadingSpace b s) \<le> length s"
proof (induction b s rule: removeLeadingSpace.induct)
  case (1 b)
  show ?case by simp
next
  case (2 b c cs)
  show ?case
  proof (cases "b \<and> isSpace c")
    case True
    have "length (dropWhile isSpace (c # cs)) \<le> length (c # cs)"
      by (rule length_dropWhile_le)
    with 2(1)[OF True] True show ?thesis by (simp only: removeLeadingSpace_strip)
  next
    case False
    with 2(2)[OF False] show ?thesis unfolding removeLeadingSpace_keep[OF False] by simp
  qed
qed

lemma length_trim: "length (trim s) \<le> length s"
proof -
  have "length (trim s) \<le> length (dropWhile isSpace s)"
    unfolding trim_def using length_dropWhile_le[of isSpace "rev (dropWhile isSpace s)"] by simp
  also have "\<dots> \<le> length s" by (rule length_dropWhile_le)
  finally show ?thesis .
qed

lemma length_formatSectionContent: "length (formatSectionContent s) \<le> length s"
proof -
  have "length (formatSectionContent s)
      \<le> length (removeLeadingSpace True (collapseNewlines (normalizeBullets True
          (removeAsterisks (removeBold s)))))"
    unfolding formatSectionContent_def by (rule length_trim)
  also have "\<dots> \<le> length (collapseNewlines (normalizeBullets True
          (removeAsterisks (removeBold s))))" by (rule length_removeLeadingSpace)
  also have "\<dots> \<le> length (normalizeBullets True (removeAsterisks (removeBold s)))"
    by (rule length_collapseNewlines)
  also have "\<dots> \<le> length (removeAsterisks (removeBold s))" by (rule length_normalizeBullets)
  also have "\<dots> \<le> length (removeBold s)" by (rule length_removeAsterisks)
  also have "\<dots> \<le> length s" by (rule length_removeBold)
  finally show ?thesis .
qed

lemma length_cleanContent_star_free:
  "42 \<notin> set s \<Longrightarrow> length (cleanContent s) \<le> length (removeHeaderMarkers s)"
proof -
  assume a: "42 \<notin> set s"
  have "length (cleanContent s)
      \<le> length (collapseNewlines (normalizeBullets True (removeHeaderMarkers s)))"
    unfolding cleanContent_def
    by (simp only: removeBold_no_star[OF a] removeAsterisks_no_star[OF a] length_trim)
  also have "\<dots> \<le> length (normalizeBullets True (removeHeaderMarkers s))"
    by (rule length_collapseNewlines)
  also have "\<dots> \<le> length (removeHeaderMarkers s)" by (rule length_normalizeBullets)
  finally show ?thesis .
qed

lemma leftover_marker_breaks_fixpoint:
  assumes "removeHeaderMarkers (normalizeText s) \<noteq> normalizeText s"
  shows "normalizeText (normalizeText s) \<noteq> normalizeText s"
proof -
  let ?y = "normalizeText s"
  have "length (normalizeText ?y) \<le> length (cleanContent ?y)"
    unfolding normalizeText_def[of ?y] by (rule length_formatSectionContent)
  also have "\<dots> \<le> length (removeHeaderMarkers ?y)"
    by (rule length_cleanContent_star_free) (rule normalizeText_star_free)
  also have "\<dots> < length ?y" using assms by (rule removeHeaderMarkers_shrinks)
  finally show ?thesis by auto
qed

section \<open>Lines of a text\<close>

lemma trim_empty_iff: "(trim s = []) = (\<forall>c \<in> set s. isSpace c)"
proof -
  have "(trim s = []) = (\<forall>x \<in> set (dropWhile isSpace s). isSpace x)"
    by (simp add: trim_def dropWhile_eq_Nil_conv)
  also have "\<dots> = (dropWhile isSpace s = [])"
  proof
    assume a: "\<forall>x \<in> set (dropWhile isSpace s). isSpace x"
    show "dropWhile isSpace s = []"
    proof (rule ccontr)
      assume n: "dropWhile isSpace s \<noteq> []"
      then have "\<not> isSpace (hd (dropWhile isSpace s))" by (rule hd_dropWhile)
      moreover from n have "hd (dropWhile isSpace s) \<in> set (dropWhile isSpace s)" by simp
      ultimately show False using a by blast
    qed
  next
    assume e: "dropWhile isSpace s = []"
    show "\<forall>x \<in> set (dropWhile isSpace s). isSpace x" unfolding e by simp
  qed
  also have "\<dots> = (\<forall>c \<in> set s. isSpace c)" by (simp add: dropWhile_eq_Nil_conv)
  finally show ?thesis .
qed

lemma trim_all_space: "\<forall>c \<in> set s. isSpace c \<Longrightarrow> trim s = []"
  by (simp add: trim_empty_iff)

lemma trim_space_left: "\<forall>c \<in> set a. isSpace c \<Longrightarrow> trim (a @ s) = trim s"
  by (simp add: trim_def dropWhile_append)

lemma trim_space_right: "\<forall>c \<in> set b. isSpace c \<Longrightarrow> trim (s @ b) = trim s"
proof (cases "\<forall>c \<in> set s. isSpace c")
  case True
  assume "\<forall>c \<in> set b. isSpace c"
  with True have "\<forall>c \<in> set (s @ b). isSpace c" by auto
  then have "trim (s @ b) = []" by (rule trim_all_space)
  moreover from True have "trim s = []" by (rule trim_all_space)
  ultimately show ?thesis by simp
next
  case False
  assume b: "\<forall>c \<in> set b. isSpace c"
  from False have "dropWhile isSpace (s @ b) = dropWhile isSpace s @ b"
    by (auto simp: dropWhile_append)
  then have "trim (s @ b) = rev (dropWhile isSpace (rev b @ rev (dropWhile isSpace s)))"
    by (simp add: trim_def)
  also have "\<dots> = rev (dropWhile isSpace (rev (dropWhile isSpace s)))"
    using b by (simp add: dropWhile_append)
  finally show ?thesis by (simp add: trim_def)
qed

lemma split_nonempty: "split s \<noteq> []"
  by (induction s) (auto split: list.splits)

lemma split_feed: "split (10 # s) = [] # split s"
  by simp

lemma split_other: "c \<noteq> 10 \<Longrightarrow> split (c # s) = (c # hd (split s)) # tl (split s)"
  using split_nonempty[of s] by (cases "split s") auto

lemma split_append_feed: "split (a @ 10 # b) = split a @ split b"
proof (induction a)
  case Nil
  show ?case by simp
next
  case (Cons c a)
  show ?case
  proof (cases "c = 10")
    case True
    with Cons show ?thesis by simp
  next
    case False
    have "split a \<noteq> []" by (rule split_nonempty)
    then obtain l ls where "split a = l # ls" by (cases "split a") auto
    with False Cons show ?thesis by simp
  qed
qed

lemma split_append:
  "split (a @ b) = butlast (split a) @ (last (split a) @ hd (split b)) # tl (split b)"
proof (induction a)
  case Nil
  show ?case using split_nonempty[of b] by simp
next
  case (Cons c a)
  show ?case
  proof (cases "c = 10")
    case True
    with Cons split_nonempty[of a] show ?thesis by simp
  next
    case False
    obtain l ls where s: "split a = l # ls" using split_nonempty[of a] by (cases "split a") auto
    show ?thesis
    proof (cases ls)
      case Nil
      with False Cons s show ?thesis by simp
    next
      case (Cons l' ls')
      with False Cons.IH s show ?thesis by simp
    qed
  qed
qed

lemma set_split: "l \<in> set (split s) \<Longrightarrow> set l \<subseteq> set s"
proof (induction s arbitrary: l)
  case Nil
  then show ?case by simp
next
  case (Cons c s)
  obtain x xs where s: "split s = x # xs" using split_nonempty[of s] by (cases "split s") auto
  show ?case
  proof (cases "c = 10")
    case True
    with Cons show ?thesis by auto
  next
    case False
    with Cons.prems s have "l = c # x \<or> l \<in> set xs" by simp
    then show ?thesis
    proof
      assume "l = c # x"
      moreover have "set x \<subseteq> set s" using Cons.IH[of x] s by simp
      ultimately show ?thesis by auto
    next
      assume "l \<in> set xs"
      then have "set l \<subseteq> set s" using Cons.IH[of l] s by simp
      then show ?thesis by auto
    qed
  qed
qed

lemma essence_append: "essence (xs @ ys) = essence xs @ essence ys"
  by (simp add: essence_def)

lemma essence_all_space:
  "\<forall>c \<in> set s. isSpace c \<Longrightarrow> essence (split s) = []"
proof -
  assume a: "\<forall>c \<in> set s. isSpace c"
  have "\<forall>l \<in> set (split s). trim l = []"
  proof
    fix l assume "l \<in> set (split s)"
    then have "set l \<subseteq> set s" by (rule set_split)
    with a show "trim l = []" by (auto simp: trim_empty_iff)
  qed
  then show ?thesis by (auto simp: essence_def filter_empty_conv)
qed

lemma essence_split:
  "essence (split s) = essence [hd (split s)] @ essence (tl (split s))"
  using split_nonempty[of s] by (cases "split s") (auto simp: essence_def)

lemma essence_butlast_split:
  "essence (split s) = essence (butlast (split s)) @ essence [last (split s)]"
proof -
  have "split s = butlast (split s) @ [last (split s)]"
    using split_nonempty[of s] by simp
  then have "essence (split s) = essence (butlast (split s) @ [last (split s)])" by simp
  then show ?thesis by (simp only: essence_append)
qed

lemma essence_space_left:
  assumes "\<forall>c \<in> set a. isSpace c"
  shows "essence (split (a @ s)) = essence (split s)"
proof -
  have e: "essence (split a) = []" using assms by (rule essence_all_space)
  then have b: "essence (butlast (split a)) = []"
    using essence_butlast_split[of a] by simp
  have "last (split a) \<in> set (split a)" using split_nonempty[of a] by simp
  then have "set (last (split a)) \<subseteq> set a" by (rule set_split)
  with assms have "\<forall>c \<in> set (last (split a)). isSpace c" by auto
  then have t: "trim (last (split a) @ hd (split s)) = trim (hd (split s))"
    by (rule trim_space_left)
  have "essence (split (a @ s)) =
      essence (butlast (split a)) @ essence [last (split a) @ hd (split s)]
        @ essence (tl (split s))"
    unfolding split_append by (simp add: essence_def)
  also have "\<dots> = essence [hd (split s)] @ essence (tl (split s))"
    using b t by (simp add: essence_def)
  also have "\<dots> = essence (split s)" by (rule essence_split[symmetric])
  finally show ?thesis .
qed

lemma essence_space_right:
  assumes "\<forall>c \<in> set b. isSpace c"
  shows "essence (split (s @ b)) = essence (split s)"
proof -
  have e: "essence (split b) = []" using assms by (rule essence_all_space)
  then have tl: "essence (tl (split b)) = []"
    using essence_split[of b] by simp
  have "hd (split b) \<in> set (split b)" using split_nonempty[of b] by simp
  then have "set (hd (split b)) \<subseteq> set b" by (rule set_split)
  with assms have "\<forall>c \<in> set (hd (split b)). isSpace c" by auto
  then have t: "trim (last (split s) @ hd (split b)) = trim (last (split s))"
    by (rule trim_space_right)
  have "essence (split (s @ b)) =
      essence (butlast (split s)) @ essence [last (split s) @ hd (split b)]
        @ essence (tl (split b))"
    unfolding split_append by (simp add: essence_def)
  also have "\<dots> = essence (butlast (split s)) @ essence [last (split s)]"
    using tl t by (simp add: essence_def)
  also have "\<dots> = essence (split s)" by (rule essence_butlast_split[symmetric])
  finally show ?thesis .
qed

lemma trim_decompose:
  "\<exists>a b. s = a @ trim s @ b \<and> (\<forall>c \<in> set a. isSpace c) \<and> (\<forall>c \<in> set b. isSpace c)"
proof -
  let ?d = "dropWhile isSpace s"
  have 1: "s = takeWhile isSpace s @ ?d" by simp
  have "?d = rev (takeWhile isSpace (rev ?d) @ dropWhile isSpace (rev ?d))" by simp
  also have "\<dots> = rev (dropWhile isSpace (rev ?d)) @ rev (takeWhile isSpace (rev ?d))"
    by (rule rev_append)
  finally have 2: "?d = trim s @ rev (takeWhile isSpace (rev ?d))" unfolding trim_def .
  from 1 2 have "s = takeWhile isSpace s @ trim s @ rev (takeWhile isSpace (rev ?d))"
    by metis
  moreover have "\<forall>c \<in> set (takeWhile isSpace s). isSpace c"
    by (auto dest: set_takeWhileD)
  moreover have "\<forall>c \<in> set (rev (takeWhile isSpace (rev ?d))). isSpace c"
    by (auto dest: set_takeWhileD)
  ultimately show ?thesis by blast
qed

lemma essence_split_trim: "essence (split (trim s)) = essence (split s)"
proof -
  from trim_decompose[of s] obtain a b where
    s: "s = a @ trim s @ b" and a: "\<forall>c \<in> set a. isSpace c" and b: "\<forall>c \<in> set b. isSpace c"
    by blast
  have "essence (split (a @ trim s @ b)) = essence (split (trim s @ b))"
    using a by (rule essence_space_left)
  also have "\<dots> = essence (split (trim s))" using b by (rule essence_space_right)
  finally show ?thesis using s by simp
qed

lemma essence_Nil_line: "essence ([] # ls) = essence ls"
  by (simp add: essence_def trim_def)

lemma essence_hd_tl:
  "hd xs = hd ys \<and> essence (tl xs) = essence (tl ys) \<Longrightarrow> xs \<noteq> [] \<Longrightarrow> ys \<noteq> [] \<Longrightarrow>
     essence xs = essence ys"
  by (cases xs; cases ys) (auto simp: essence_def)

lemma essence_split_after_feeds:
  "essence (split (dropWhile (\<lambda>d. d = 10) s)) = essence (split s)"
proof -
  have "\<forall>c \<in> set (takeWhile (\<lambda>d. d = 10) s). isSpace c"
    by (auto dest!: set_takeWhileD simp: isSpace_def isLineTerminator_def)
  then have "essence (split (takeWhile (\<lambda>d. d = 10) s @ dropWhile (\<lambda>d. d = 10) s))
      = essence (split (dropWhile (\<lambda>d. d = 10) s))"
    by (rule essence_space_left)
  then show ?thesis by simp
qed

lemma split_collapseNewlines:
  "hd (split (collapseNewlines s)) = hd (split s)
   \<and> essence (tl (split (collapseNewlines s))) = essence (tl (split s))"
proof (induction s rule: collapseNewlines.induct)
  case 1
  show ?case by simp
next
  case (2 c cs)
  show ?case
  proof (cases "3 \<le> length (takeWhile (\<lambda>d. d = 10) (c # cs))")
    case True
    then have c: "c = 10" by (auto split: if_splits)
    let ?rest = "dropWhile (\<lambda>d. d = 10) (c # cs)"
    have r: "?rest = dropWhile (\<lambda>d. d = 10) cs" using c by simp
    have "essence (split (collapseNewlines ?rest)) = essence (split ?rest)"
      by (rule essence_hd_tl[OF 2(1)[OF True] split_nonempty split_nonempty])
    also have "\<dots> = essence (split cs)" unfolding r by (rule essence_split_after_feeds)
    finally have "essence (split (collapseNewlines ?rest)) = essence (split cs)" .
    then show ?thesis
      unfolding collapseNewlines_run[OF True] using c by (simp add: essence_Nil_line)
  next
    case False
    note ih = 2(2)[OF False]
    have e: "essence (split (collapseNewlines cs)) = essence (split cs)"
      by (rule essence_hd_tl[OF ih split_nonempty split_nonempty])
    show ?thesis
    proof (cases "c = 10")
      case True
      with e show ?thesis unfolding collapseNewlines_keep[OF False] by simp
    next
      case F: False
      with ih show ?thesis
        unfolding collapseNewlines_keep[OF False] by (simp add: split_other del: split.simps)
    qed
  qed
qed

lemma essence_split_collapseNewlines:
  "essence (split (collapseNewlines s)) = essence (split s)"
  by (rule essence_hd_tl[OF split_collapseNewlines split_nonempty split_nonempty])

lemma toLowerCase_Nil_iff: "(toLowerCase h = []) = (h = [])"
  by (cases h) (auto simp: toLowerCase_def lowerUnit_def)

lemma blank_not_header: "trim l = [] \<Longrightarrow> matchedHeader l = None"
proof -
  assume a: "trim l = []"
  have "\<forall>h \<in> set sectionHeaders. \<not> headerMatches [] h"
  proof
    fix h assume "h \<in> set sectionHeaders"
    then have "h \<noteq> []" by (rule sectionHeaders_nonempty)
    then have "toLowerCase h \<noteq> []" by (simp add: toLowerCase_Nil_iff)
    then show "\<not> headerMatches [] h" by (simp add: headerMatches_def toLowerCase_def)
  qed
  then show ?thesis unfolding matchedHeader_def a find_None_iff by blast
qed

lemma matchedHeader_trim: "matchedHeader (trim l) = matchedHeader l"
  by (simp add: matchedHeader_def trim_idem)

lemma outline_essence: "outline (essence ls) = outline ls"
proof (induction ls)
  case Nil
  show ?case by (simp add: essence_def)
next
  case (Cons l ls)
  show ?case
  proof (cases "trim l = []")
    case True
    then have "essence (l # ls) = essence ls" by (simp add: essence_def)
    with Cons True blank_not_header[OF True] show ?thesis
      by (simp split: prod.splits option.splits)
  next
    case False
    then have "essence (l # ls) = trim l # essence ls" by (simp add: essence_def)
    with Cons False show ?thesis
      by (simp add: matchedHeader_trim trim_idem split: prod.splits option.splits)
  qed
qed

lemma trim_line_feed:
  "(trim (l @ [10] @ pre) \<noteq> []) = (trim l \<noteq> [] \<or> trim pre \<noteq> [])"
  by (auto simp: trim_empty_iff isSpace_def isLineTerminator_def)

lemma outline_headerBlocks:
  "outline ls =
     (trim (fst (headerBlocks ls)) \<noteq> [],
      map (\<lambda>b. (fst b, trim (snd b) \<noteq> [])) (snd (headerBlocks ls)))"
proof (induction ls)
  case Nil
  show ?case by (simp add: trim_def)
next
  case (Cons l ls)
  obtain pre bs where hb: "headerBlocks ls = (pre, bs)" by (cases "headerBlocks ls")
  show ?case
  proof (cases "matchedHeader l")
    case None
    with Cons hb show ?thesis using trim_line_feed[of l pre] by (simp add: trim_def)
  next
    case (Some h)
    with Cons hb show ?thesis by (simp add: trim_def)
  qed
qed

lemma titles_emitted:
  "\<forall>b \<in> set bs. fst b \<noteq> [] \<Longrightarrow>
     map title (concat (map emitSection bs)) =
       map fst (filter snd (map (\<lambda>b. (fst b, trim (snd b) \<noteq> [])) bs))"
  by (induction bs) (auto simp: emitSection_def)

lemma scanLines_titles:
  "map title (scanLines ls) = map fst (filter snd (snd (outline ls)))"
proof -
  have "\<forall>b \<in> set (sectionBlocks ls). fst b \<noteq> []"
  proof
    fix b assume "b \<in> set (sectionBlocks ls)"
    then have "(fst b, snd b) \<in> set (snd (headerBlocks ls))" by (simp add: sectionBlocks_def)
    then show "fst b \<noteq> []"
      using headerBlocks_titles_in_catalog sectionHeaders_nonempty by blast
  qed
  then show ?thesis
    unfolding scanLines_blocks outline_headerBlocks
    by (simp add: titles_emitted sectionBlocks_def)
qed

lemma outline_final_empty_line: "outline (ls @ [[]]) = outline ls"
proof (induction ls)
  case Nil
  have t: "trim [] = []" by (simp add: trim_def)
  then have "matchedHeader [] = None" by (rule blank_not_header)
  with t show ?case by simp
next
  case (Cons l ls)
  then show ?case by simp
qed

lemma outline_no_header:
  "\<forall>l \<in> set E. matchedHeader l = None \<Longrightarrow>
     outline (E @ rest) = ((\<exists>l \<in> set E. trim l \<noteq> []) \<or> fst (outline rest), snd (outline rest))"
  by (induction E) (auto split: prod.splits)

lemma outline_block:
  assumes "matchedHeader h = Some t" and "\<forall>l \<in> set E. matchedHeader l = None"
    and "\<exists>l \<in> set E. trim l \<noteq> []"
  shows "outline (h # E @ rest) = (False, (t, True) # snd (outline rest))"
proof -
  have "outline (E @ rest) = (True, snd (outline rest))"
    using outline_no_header[OF assms(2), of rest] assms(3) by simp
  with assms(1) show ?thesis by simp
qed

section \<open>Plain text through the normaliser\<close>

lemma noListMarker_weaken: "noListMarker True s \<Longrightarrow> noListMarker b s"
  by (induction b s rule: noListMarker.induct) auto

lemma noListMarker_tail: "noListMarker ps (c # cs) \<Longrightarrow> noListMarker (isSpace c) cs"
  by (cases cs) auto

lemma noListMarker_matchBullet: "noListMarker True s \<Longrightarrow> matchBullet s = None"
proof (induction s)
  case Nil
  show ?case by simp
next
  case (Cons c cs)
  show ?case
  proof (cases "isSpace c")
    case True
    with Cons.prems have "noListMarker True cs" using noListMarker_tail by fastforce
    then have "matchBullet cs = None" by (rule Cons.IH)
    with True show ?thesis by (simp add: matchBullet_space)
  next
    case False
    with Cons.prems show ?thesis
      by (cases cs) (auto simp: matchBullet_nonspace)
  qed
qed

lemma noListMarker_settled: "noListMarker ps s \<Longrightarrow> (b \<longrightarrow> ps) \<Longrightarrow> settled b s"
proof (induction s arbitrary: ps b)
  case Nil
  show ?case by simp
next
  case (Cons c cs)
  have tl: "settled (isLineTerminator c) cs"
  proof (rule Cons.IH)
    show "noListMarker (isSpace c) cs" using Cons.prems(1) by (rule noListMarker_tail)
    show "isLineTerminator c \<longrightarrow> isSpace c" using isLineTerminator_isSpace by blast
  qed
  have "\<not> b \<or> matchBullet (c # cs) = None"
  proof (cases b)
    case True
    with Cons.prems have "noListMarker True (c # cs)" by simp
    then have "matchBullet (c # cs) = None" by (rule noListMarker_matchBullet)
    then show ?thesis by simp
  next
    case False
    then show ?thesis by simp
  qed
  with tl show ?case by auto
qed

lemma noListMarker_append_plain:
  "\<forall>c \<in> set a. \<not> isMarker c \<Longrightarrow>
     noListMarker (if a = [] then ps else isSpace (last a)) b \<Longrightarrow> noListMarker ps (a @ b)"
proof (induction a arbitrary: ps)
  case Nil
  then show ?case by simp
next
  case (Cons c a)
  have "noListMarker (isSpace c) (a @ b)"
  proof (rule Cons.IH)
    show "\<forall>c \<in> set a. \<not> isMarker c" using Cons.prems(1) by simp
    show "noListMarker (if a = [] then isSpace c else isSpace (last a)) b"
      using Cons.prems(2) by (cases a) auto
  qed
  moreover have "\<not> isMarker c" using Cons.prems(1) by simp
  ultimately show ?case by (cases "a @ b") auto
qed

lemma noListMarker_append_field:
  "noListMarker ps (a @ [x]) \<Longrightarrow>
     noListMarker (if a = [] then ps else isSpace (last a)) (x # b) \<Longrightarrow>
     noListMarker ps (a @ x # b)"
proof (induction a arbitrary: ps)
  case Nil
  then show ?case by simp
next
  case (Cons c a)
  have t: "noListMarker (isSpace c) (a @ x # b)"
  proof (rule Cons.IH)
    show "noListMarker (isSpace c) (a @ [x])"
      using Cons.prems(1) noListMarker_tail[of ps c "a @ [x]"] by simp
    show "noListMarker (if a = [] then isSpace c else isSpace (last a)) (x # b)"
      using Cons.prems(2) by (cases a) auto
  qed
  obtain w r where w: "a @ [x] = w # r" by (cases "a @ [x]") auto
  then have w2: "a @ x # b = w # r @ b" by (cases a) auto
  from Cons.prems(1) w have "\<not> (ps \<and> isMarker c \<and> isSpace w)" by simp
  with t[unfolded w2] have "noListMarker ps (c # w # r @ b)" by simp
  then show ?case unfolding append_Cons w2 .
qed

lemma noListMarker_dashes_False:
  "noListMarker False b \<Longrightarrow> noListMarker False (replicate n 45 @ b)"
proof (induction n)
  case 0
  then show ?case by simp
next
  case (Suc n)
  have "\<not> isSpace 45" by (simp add: isSpace_def isLineTerminator_def)
  with Suc show ?case by (cases "replicate n 45 @ b") auto
qed

lemma noListMarker_dashes:
  "2 \<le> n \<Longrightarrow> noListMarker False b \<Longrightarrow> noListMarker ps (replicate n 45 @ b)"
proof -
  assume n: "2 \<le> n" and b: "noListMarker False b"
  then obtain m where m: "n = Suc (Suc m)" by (metis Suc_le_D numeral_2_eq_2 Suc_le_mono)
  have ns: "\<not> isSpace 45" by (simp add: isSpace_def isLineTerminator_def)
  have "noListMarker False (replicate (Suc m) 45 @ b)"
    using b by (rule noListMarker_dashes_False)
  then show ?thesis unfolding m using ns by simp
qed

lemma cleanContent_plain:
  assumes "42 \<notin> set s" and "35 \<notin> set s" and "noListMarker True s"
  shows "cleanContent s = trim (collapseNewlines s)"
proof -
  have "settled True s" using assms(3) by (rule noListMarker_settled) simp
  then have "normalizeBullets True s = s" by (rule settled_fixpoint)
  then show ?thesis
    unfolding cleanContent_def
    by (simp add: removeBold_no_star[OF assms(1)] removeAsterisks_no_star[OF assms(1)]
        removeHeaderMarkers_no_hash[OF assms(2)])
qed

lemma outline_cleanContent_plain:
  assumes "42 \<notin> set s" and "35 \<notin> set s" and "noListMarker True s"
  shows "outline (split (cleanContent s)) = outline (split s)"
proof -
  have "outline (split (cleanContent s)) = outline (essence (split (cleanContent s)))"
    by (rule outline_essence[symmetric])
  also have "\<dots> = outline (essence (split s))"
    unfolding cleanContent_plain[OF assms]
    by (simp only: essence_split_trim essence_split_collapseNewlines)
  also have "\<dots> = outline (split s)" by (rule outline_essence)
  finally show ?thesis .
qed










lemma split_no_feed: "10 \<notin> set h \<Longrightarrow> split h = [h]"
  by (induction h) auto

lemma set_split_cover: "set s \<subseteq> (\<Union>l \<in> set (split s). set l) \<union> {10}"
proof (induction s)
  case Nil
  show ?case by simp
next
  case (Cons c s)
  obtain x xs where s: "split s = x # xs" using split_nonempty[of s] by (cases "split s") auto
  with Cons show ?case by (cases "c = 10") auto
qed

lemma ink_split: "trim s \<noteq> [] \<Longrightarrow> \<exists>l \<in> set (split s). trim l \<noteq> []"
proof (rule ccontr)
  assume t: "trim s \<noteq> []" and n: "\<not> (\<exists>l \<in> set (split s). trim l \<noteq> [])"
  then have a: "\<forall>l \<in> set (split s). \<forall>c \<in> set l. isSpace c" by (simp add: trim_empty_iff)
  have "\<forall>c \<in> set s. isSpace c"
  proof
    fix c assume "c \<in> set s"
    with set_split_cover[of s] have "c = 10 \<or> (\<exists>l \<in> set (split s). c \<in> set l)" by auto
    with a show "isSpace c" by (auto simp: isSpace_def isLineTerminator_def)
  qed
  with t show False by (simp add: trim_empty_iff)
qed

lemma outline_empty_text: "outline (split []) = (False, [])"
proof -
  have t: "trim [] = []" by (simp add: trim_def)
  then have "matchedHeader [] = None" by (rule blank_not_header)
  with t show ?thesis by simp
qed

lemma outline_sections:
  assumes "\<forall>hb \<in> set hbs. 10 \<notin> set (fst hb) \<and> matchedHeader (fst hb) = Some (fst hb)
      \<and> (\<forall>l \<in> set (split (snd hb)). matchedHeader l = None) \<and> trim (snd hb) \<noteq> []"
  shows "outline (split (concat (map (\<lambda>hb. fst hb @ [10] @ snd hb @ [10]) hbs)))
      = (False, map (\<lambda>hb. (fst hb, True)) hbs)"
  using assms
proof (induction hbs)
  case Nil
  show ?case using outline_empty_text by simp
next
  case (Cons hb hbs)
  let ?S = "concat (map (\<lambda>hb. fst hb @ [10] @ snd hb @ [10]) hbs)"
  have ih: "outline (split ?S) = (False, map (\<lambda>hb. (fst hb, True)) hbs)"
    using Cons by simp
  from Cons.prems have h: "10 \<notin> set (fst hb)" "matchedHeader (fst hb) = Some (fst hb)"
    and b: "\<forall>l \<in> set (split (snd hb)). matchedHeader l = None" and t: "trim (snd hb) \<noteq> []"
    by auto
  have "split (fst hb @ 10 # snd hb @ 10 # ?S) = split (fst hb) @ split (snd hb @ 10 # ?S)"
    by (rule split_append_feed)
  also have "\<dots> = [fst hb] @ split (snd hb) @ split ?S"
    by (simp only: split_no_feed[OF h(1)] split_append_feed)
  finally have s: "split (fst hb @ 10 # snd hb @ 10 # ?S) = fst hb # split (snd hb) @ split ?S"
    by simp
  have "outline (fst hb # split (snd hb) @ split ?S)
      = (False, (fst hb, True) # snd (outline (split ?S)))"
    using h(2) b ink_split[OF t] by (rule outline_block)
  with s ih show ?case by simp
qed

lemma noListMarker_feed: "noListMarker True s \<Longrightarrow> noListMarker ps (10 # s)"
proof -
  assume "noListMarker True s"
  moreover have "\<not> isMarker 10" by (simp add: isMarker_def)
  moreover have "isSpace 10" by (simp add: isSpace_def isLineTerminator_def)
  ultimately show ?thesis by (cases s) auto
qed

lemma noListMarker_plain_then:
  "\<forall>c \<in> set a. \<not> isMarker c \<Longrightarrow> noListMarker True b \<Longrightarrow> noListMarker ps (a @ b)"
proof -
  assume a: "\<forall>c \<in> set a. \<not> isMarker c" and b: "noListMarker True b"
  from b have "noListMarker (if a = [] then ps else isSpace (last a)) b"
    by (rule noListMarker_weaken)
  with a show ?thesis by (rule noListMarker_append_plain)
qed

lemma noListMarker_field_then:
  "noListMarker True (f @ [10]) \<Longrightarrow> noListMarker True rest \<Longrightarrow>
     noListMarker ps (f @ 10 # rest)"
proof -
  assume f: "noListMarker True (f @ [10])" and r: "noListMarker True rest"
  from f have 1: "noListMarker ps (f @ [10])" by (rule noListMarker_weaken)
  from r have "noListMarker (if f = [] then ps else isSpace (last f)) (10 # rest)"
    by (rule noListMarker_feed)
  with 1 show ?thesis by (rule noListMarker_append_field)
qed

lemma noListMarker_dashes_then:
  "2 \<le> n \<Longrightarrow> noListMarker True b \<Longrightarrow> noListMarker ps (replicate n 45 @ b)"
proof -
  assume n: "2 \<le> n" and b: "noListMarker True b"
  from b have "noListMarker False b" by (rule noListMarker_weaken)
  with n show ?thesis by (rule noListMarker_dashes)
qed

lemma noListMarker_sections:
  assumes "\<forall>hb \<in> set hbs. (\<forall>c \<in> set (fst hb). \<not> isMarker c) \<and> noListMarker True (snd hb @ [10])"
  shows "noListMarker True (concat (map (\<lambda>hb. fst hb @ [10] @ snd hb @ [10]) hbs))"
  using assms
proof (induction hbs)
  case Nil
  show ?case by simp
next
  case (Cons hb hbs)
  let ?S = "concat (map (\<lambda>hb. fst hb @ [10] @ snd hb @ [10]) hbs)"
  have ih: "noListMarker True ?S" using Cons by simp
  from Cons.prems have h: "\<forall>c \<in> set (fst hb). \<not> isMarker c"
    and b: "noListMarker True (snd hb @ [10])" by auto
  have "noListMarker True (snd hb @ 10 # ?S)" using b ih by (rule noListMarker_field_then)
  then have "noListMarker True (10 # snd hb @ 10 # ?S)" by (rule noListMarker_feed)
  with h have "noListMarker True (fst hb @ 10 # snd hb @ 10 # ?S)"
    by (rule noListMarker_plain_then)
  then show ?case by simp
qed

lemma catalog_title_facts:
  "\<forall>h \<in> set sectionHeaders. matchedHeader h = Some h \<and> 10 \<notin> set h \<and> 42 \<notin> set h
     \<and> 35 \<notin> set h \<and> list_all (\<lambda>c. \<not> isMarker c) h \<and> 2 \<le> length h"
  by code_simp


lemma titles_of_plain_text:
  assumes "42 \<notin> set s" and "35 \<notin> set s" and "noListMarker True s"
  shows "map title (scanLines (split (cleanContent s)))
      = map fst (filter snd (snd (outline (split s))))"
  by (simp only: scanLines_titles outline_cleanContent_plain[OF assms])

lemma parse_of_scan:
  "scanLines (split (cleanContent s)) \<noteq> [] \<Longrightarrow>
     parseBusinessPlanSections s = scanLines (split (cleanContent s))"
  by (simp add: parseBusinessPlanSections_def Let_def)

lemma sections_chars:
  assumes "\<forall>hb \<in> set hbs. x \<notin> set (fst hb) \<and> x \<notin> set (snd hb)" and "x \<noteq> 10"
  shows "x \<notin> set (concat (map (\<lambda>hb. fst hb @ [10] @ snd hb @ [10]) hbs))"
  using assms by (induction hbs) auto

lemma marker_free: "list_all (\<lambda>c. \<not> isMarker c) h \<Longrightarrow> \<forall>c \<in> set h. \<not> isMarker c"
  by (simp add: list_all_iff)


section \<open>The export\<close>

lemma ruleLine_facts:
  "matchedHeader ruleLine = None \<and> list_all (\<lambda>c. \<not> isMarker c \<and> c \<noteq> 42 \<and> c \<noteq> 35 \<and> c \<noteq> 10) ruleLine"
  by code_simp

lemma exportSection_body:
  "exportSection sec = title sec @ [10] @ sectionBody sec @ [10]"
  by (simp add: exportSection_def sectionBody_def)

lemma export_shape:
  "formatBusinessPlanForExport doc =
     exportHeading doc @ 10 # 10 # ruleLine @ 10 # 10 #
       concat (map (\<lambda>hb. fst hb @ [10] @ snd hb @ [10])
         (map (\<lambda>sec. (title sec, sectionBody sec)) (plan_sections doc)))"
proof -
  have "exportSection = (\<lambda>sec. title sec @ [10] @ sectionBody sec @ [10])"
    by (rule ext) (rule exportSection_body)
  then show ?thesis
    by (simp add: formatBusinessPlanForExport_def exportHeading_def comp_def ruleLine_def)
qed

lemma strIncludes_set: "strIncludes s t \<Longrightarrow> set t \<subseteq> set s"
  by (auto simp: strIncludes_iff)

lemma catalog_titles_have_letters:
  "\<forall>h \<in> set sectionHeaders. list_ex (\<lambda>c. c \<noteq> 45) (toLowerCase h)"
  by code_simp

lemma dashes_not_header: "matchedHeader (replicate n 45) = None"
proof -
  have "\<forall>h \<in> set sectionHeaders. \<not> headerMatches (trim (replicate n 45)) h"
  proof
    fix h assume h: "h \<in> set sectionHeaders"
    show "\<not> headerMatches (trim (replicate n 45)) h"
    proof
      assume "headerMatches (trim (replicate n 45)) h"
      then have "strIncludes (toLowerCase (trim (replicate n 45))) (toLowerCase h)"
        by (simp add: headerMatches_def)
      then have "set (toLowerCase h) \<subseteq> set (toLowerCase (trim (replicate n 45)))"
        by (rule strIncludes_set)
      also have "\<dots> \<subseteq> (\<Union>c \<in> set (replicate n 45). set (lowerUnit c))"
        using set_trim[of "replicate n 45"] by (auto simp: toLowerCase_def)
      also have "\<dots> \<subseteq> {45}" by (auto simp: lowerUnit_def)
      finally have "\<forall>c \<in> set (toLowerCase h). c = 45" by auto
      moreover from h catalog_titles_have_letters
      have "\<exists>c \<in> set (toLowerCase h). c \<noteq> 45" by (auto simp: list_ex_iff)
      ultimately show False by blast
    qed
  qed
  then show ?thesis unfolding matchedHeader_def find_None_iff by blast
qed

lemma literal_facts:
  "list_all (\<lambda>c. \<not> isMarker c \<and> c \<noteq> 42 \<and> c \<noteq> 35 \<and> c \<noteq> 10) (js ''Industry: '')
   \<and> list_all (\<lambda>c. \<not> isMarker c \<and> c \<noteq> 42 \<and> c \<noteq> 35 \<and> c \<noteq> 10) (js ''Created: '')"
  by code_simp

lemma sectionBody_lines:
  "split (sectionBody sec) =
     [replicate (length (title sec)) 45, []] @ split (content sec) @ [[]]"
proof -
  have d: "split (replicate (length (title sec)) 45) = [replicate (length (title sec)) 45]"
    by (rule split_no_feed) simp
  have "sectionBody sec
      = replicate (length (title sec)) 45 @ 10 # (10 # (content sec @ 10 # []))"
    by (simp add: sectionBody_def)
  then have "split (sectionBody sec)
      = split (replicate (length (title sec)) 45) @ split (10 # (content sec @ 10 # []))"
    by (simp only: split_append_feed)
  also have "split (10 # (content sec @ 10 # [])) = [] # split (content sec @ 10 # [])"
    by simp
  also have "split (content sec @ 10 # []) = split (content sec) @ split []"
    by (rule split_append_feed)
  finally show ?thesis using d by simp
qed

lemma sectionBody_plain:
  assumes "2 \<le> length (title sec)" and "noListMarker True (content sec @ [10])"
  shows "noListMarker True (sectionBody sec @ [10])"
proof -
  have "noListMarker True [10]" by simp
  with assms(2) have "noListMarker True (content sec @ 10 # [10])"
    by (rule noListMarker_field_then)
  then have "noListMarker True (10 # content sec @ 10 # [10])" by (rule noListMarker_feed)
  then have "noListMarker True (10 # 10 # content sec @ 10 # [10])" by (rule noListMarker_feed)
  with assms(1)
  have "noListMarker True (replicate (length (title sec)) 45 @ 10 # 10 # content sec @ 10 # [10])"
    by (rule noListMarker_dashes_then)
  then show ?thesis by (simp add: sectionBody_def)
qed

lemma sectionBody_ink: "title sec \<noteq> [] \<Longrightarrow> trim (sectionBody sec) \<noteq> []"
proof -
  assume "title sec \<noteq> []"
  then have "45 \<in> set (sectionBody sec)" by (simp add: sectionBody_def)
  moreover have "\<not> isSpace 45" by (simp add: isSpace_def isLineTerminator_def)
  ultimately show ?thesis unfolding trim_empty_iff by blast
qed


lemma catalog_title_plain: "h \<in> set sectionHeaders \<Longrightarrow> plainTitle h"
  using catalog_title_facts by (auto simp: plainTitle_def list_all_iff)

lemma fallback_title_facts:
  "plainTitle (js ''Business Plan'') \<and> matchedHeader (js ''Business Plan'') = None"
  by code_simp

lemma export_plain:
  assumes each: "\<forall>sec \<in> set (plan_sections doc). plainTitle (title sec) \<and> plainText (content sec)"
    and fields: "plainText (plan_title doc)" "plainText (plan_industry doc)"
        "plainText (plan_createdAt doc)"
  shows "42 \<notin> set (formatBusinessPlanForExport doc)
    \<and> 35 \<notin> set (formatBusinessPlanForExport doc)
    \<and> noListMarker True (formatBusinessPlanForExport doc)"
proof -
  let ?hbs = "map (\<lambda>sec. (title sec, sectionBody sec)) (plan_sections doc)"
  let ?S = "concat (map (\<lambda>hb. fst hb @ [10] @ snd hb @ [10]) ?hbs)"
  let ?rule = "ruleLine"
  let ?T = "formatBusinessPlanForExport doc"
  have T: "?T = exportHeading doc @ 10 # 10 # ?rule @ 10 # 10 # ?S" by (rule export_shape)
  have lit: "\<forall>c \<in> set (js ''Industry: ''). \<not> isMarker c \<and> c \<noteq> 42 \<and> c \<noteq> 35"
    "\<forall>c \<in> set (js ''Created: ''). \<not> isMarker c \<and> c \<noteq> 42 \<and> c \<noteq> 35"
    using literal_facts by (auto simp: list_all_iff)
  have cS: "noListMarker True ?S"
  proof (rule noListMarker_sections, rule ballI)
    fix hb assume "hb \<in> set ?hbs"
    then obtain sec where sec: "sec \<in> set (plan_sections doc)"
      and hb: "hb = (title sec, sectionBody sec)" by auto
    from sec each have t: "plainTitle (title sec)" and c: "plainText (content sec)" by auto
    from c have "noListMarker True (content sec @ [10])" by (simp add: plainText_def)
    moreover from t have "2 \<le> length (title sec)" by (simp add: plainTitle_def)
    ultimately have "noListMarker True (sectionBody sec @ [10])"
      by (rule sectionBody_plain[rotated])
    with t hb
    show "(\<forall>c \<in> set (fst hb). \<not> isMarker c) \<and> noListMarker True (snd hb @ [10])"
      by (simp add: plainTitle_def)
  qed
  have "noListMarker True (10 # ?S)" using cS by (rule noListMarker_feed)
  then have "noListMarker True (10 # 10 # ?S)" by (rule noListMarker_feed)
  then have "noListMarker True (?rule @ 10 # 10 # ?S)"
    by (rule noListMarker_plain_then[rotated]) (use ruleLine_facts in \<open>auto simp: list_all_iff\<close>)
  then have r0: "noListMarker True (10 # ?rule @ 10 # 10 # ?S)"
    by (rule noListMarker_feed)
  have f1: "noListMarker True (plan_title doc @ [10])"
    and f2: "noListMarker True (plan_industry doc @ [10])"
    and f3: "noListMarker True (plan_createdAt doc @ [10])"
    using fields by (simp_all only: plainText_def)
  have l1: "\<forall>c \<in> set (js ''Industry: ''). \<not> isMarker c"
    and l2: "\<forall>c \<in> set (js ''Created: ''). \<not> isMarker c"
    using lit by blast+
  have r1: "noListMarker True (plan_createdAt doc @ 10 # 10 # ?rule @ 10 # 10 # ?S)"
    using f3 r0 by (rule noListMarker_field_then)
  have r2: "noListMarker True
      (js ''Created: '' @ plan_createdAt doc @ 10 # 10 # ?rule @ 10 # 10 # ?S)"
    using l2 r1 by (rule noListMarker_plain_then)
  have r3: "noListMarker True (plan_industry doc @ 10 #
      js ''Created: '' @ plan_createdAt doc @ 10 # 10 # ?rule @ 10 # 10 # ?S)"
    using f2 r2 by (rule noListMarker_field_then)
  have r4: "noListMarker True (js ''Industry: '' @ plan_industry doc @ 10 #
      js ''Created: '' @ plan_createdAt doc @ 10 # 10 # ?rule @ 10 # 10 # ?S)"
    using l1 r3 by (rule noListMarker_plain_then)
  have "noListMarker True (plan_title doc @ 10 # js ''Industry: '' @ plan_industry doc @ 10 #
      js ''Created: '' @ plan_createdAt doc @ 10 # 10 # ?rule @ 10 # 10 # ?S)"
    using f1 r4 by (rule noListMarker_field_then)
  then have calm: "noListMarker True ?T" unfolding T by (simp add: exportHeading_def)
  have chars: "\<And>x. x = 42 \<or> x = 35 \<Longrightarrow> x \<notin> set ?T"
  proof -
    fix x :: int assume x: "x = 42 \<or> x = 35"
    have "x \<notin> set ?S"
    proof (rule sections_chars)
      show "\<forall>hb \<in> set ?hbs. x \<notin> set (fst hb) \<and> x \<notin> set (snd hb)"
      proof
        fix hb assume "hb \<in> set ?hbs"
        then obtain sec where sec: "sec \<in> set (plan_sections doc)"
          and hb: "hb = (title sec, sectionBody sec)" by auto
        from sec each have "42 \<notin> set (content sec) \<and> 35 \<notin> set (content sec)"
          and "42 \<notin> set (title sec) \<and> 35 \<notin> set (title sec)"
          by (simp_all add: plainText_def plainTitle_def)
        with x hb show "x \<notin> set (fst hb) \<and> x \<notin> set (snd hb)"
          by (auto simp: sectionBody_def)
      qed
      show "x \<noteq> 10" using x by auto
    qed
    moreover have "x \<notin> set (exportHeading doc)"
      using x fields lit by (auto simp: exportHeading_def plainText_def)
    moreover have "x \<notin> set ?rule"
      using x ruleLine_facts by (auto simp: list_all_iff)
    ultimately show "x \<notin> set ?T" unfolding T using x by auto
  qed
  have star: "42 \<notin> set ?T" by (rule chars) simp
  have hash: "35 \<notin> set ?T" by (rule chars) simp
  from star hash calm show ?thesis by blast
qed

lemma export_lines:
  "split (formatBusinessPlanForExport doc) =
     (split (exportHeading doc) @ [[], ruleLine, []])
     @ split (concat (map (\<lambda>hb. fst hb @ [10] @ snd hb @ [10])
         (map (\<lambda>sec. (title sec, sectionBody sec)) (plan_sections doc))))"
proof -
  let ?S = "concat (map (\<lambda>hb. fst hb @ [10] @ snd hb @ [10])
         (map (\<lambda>sec. (title sec, sectionBody sec)) (plan_sections doc)))"
  let ?T = "formatBusinessPlanForExport doc"
  have T: "?T = exportHeading doc @ 10 # 10 # ruleLine @ 10 # 10 # ?S" by (rule export_shape)
  have "split ?T = split (exportHeading doc) @ split (10 # ruleLine @ 10 # 10 # ?S)"
    unfolding T by (rule split_append_feed)
  also have "split (10 # ruleLine @ 10 # 10 # ?S) = [] # split (ruleLine @ 10 # 10 # ?S)"
    by simp
  also have "split (ruleLine @ 10 # 10 # ?S) = split ruleLine @ split (10 # ?S)"
    by (rule split_append_feed)
  also have "split ruleLine = [ruleLine]"
    by (rule split_no_feed) (use ruleLine_facts in \<open>auto simp: list_all_iff\<close>)
  also have "split (10 # ?S) = [] # split ?S" by simp
  finally show ?thesis by simp
qed

lemma export_heading_lines:
  assumes "\<forall>l \<in> set (split (exportHeading doc)). \<not> isSectionHeaderLine l"
  shows "\<forall>l \<in> set (split (exportHeading doc) @ [[], ruleLine, []]). matchedHeader l = None"
proof -
  have "matchedHeader [] = None" by (rule blank_not_header) (simp add: trim_def)
  with assms ruleLine_facts show ?thesis by (auto simp: matchedHeader_None_iff)
qed

lemma sectionBody_no_header:
  assumes "\<forall>l \<in> set (split (content sec)). \<not> isSectionHeaderLine l"
  shows "\<forall>l \<in> set (split (sectionBody sec)). matchedHeader l = None"
proof -
  have "matchedHeader [] = None" by (rule blank_not_header) (simp add: trim_def)
  with assms dashes_not_header show ?thesis
    unfolding sectionBody_lines by (auto simp: matchedHeader_None_iff)
qed

lemma export_reparse_catalog:
  assumes secs: "plan_sections doc \<noteq> []"
    and titles: "\<forall>sec \<in> set (plan_sections doc). title sec \<in> set sectionHeaders"
    and each: "\<forall>sec \<in> set (plan_sections doc). plainText (content sec)
        \<and> (\<forall>l \<in> set (split (content sec)). \<not> isSectionHeaderLine l)"
    and fields: "plainText (plan_title doc)" "plainText (plan_industry doc)"
        "plainText (plan_createdAt doc)"
    and heading: "\<forall>l \<in> set (split (exportHeading doc)). \<not> isSectionHeaderLine l"
  shows "map title (parseBusinessPlanSections (formatBusinessPlanForExport doc))
      = map title (plan_sections doc)"
proof -
  let ?hbs = "map (\<lambda>sec. (title sec, sectionBody sec)) (plan_sections doc)"
  let ?S = "concat (map (\<lambda>hb. fst hb @ [10] @ snd hb @ [10]) ?hbs)"
  let ?T = "formatBusinessPlanForExport doc"
  have "\<forall>sec \<in> set (plan_sections doc). plainTitle (title sec) \<and> plainText (content sec)"
    using titles each catalog_title_plain by blast
  from export_plain[OF this fields]
  have star: "42 \<notin> set ?T" and hash: "35 \<notin> set ?T" and calm: "noListMarker True ?T"
    by blast+
  have oS: "outline (split ?S) = (False, map (\<lambda>hb. (fst hb, True)) ?hbs)"
  proof (rule outline_sections, rule ballI)
    fix hb assume "hb \<in> set ?hbs"
    then obtain sec where sec: "sec \<in> set (plan_sections doc)"
      and hb: "hb = (title sec, sectionBody sec)" by auto
    from sec titles have t: "title sec \<in> set sectionHeaders" by blast
    with catalog_title_facts have m: "matchedHeader (title sec) = Some (title sec)"
      and n: "10 \<notin> set (title sec)" and l: "2 \<le> length (title sec)" by blast+
    from sec each have b: "\<forall>l \<in> set (split (sectionBody sec)). matchedHeader l = None"
      by (intro sectionBody_no_header) blast
    from l have "title sec \<noteq> []" by auto
    then have "trim (sectionBody sec) \<noteq> []" by (rule sectionBody_ink)
    with m n b hb
    show "10 \<notin> set (fst hb) \<and> matchedHeader (fst hb) = Some (fst hb)
      \<and> (\<forall>l \<in> set (split (snd hb)). matchedHeader l = None) \<and> trim (snd hb) \<noteq> []"
      by simp
  qed
  have "snd (outline ((split (exportHeading doc) @ [[], ruleLine, []]) @ split ?S))
      = snd (outline (split ?S))"
    by (simp only: outline_no_header[OF export_heading_lines[OF heading]] snd_conv)
  then have o: "snd (outline (split ?T)) = map (\<lambda>hb. (fst hb, True)) ?hbs"
    by (simp only: export_lines oS snd_conv)
  have t: "map title (scanLines (split (cleanContent ?T))) = map title (plan_sections doc)"
    unfolding titles_of_plain_text[OF star hash calm] o by (simp add: comp_def)
  with secs have "scanLines (split (cleanContent ?T)) \<noteq> []" by auto
  then have "parseBusinessPlanSections ?T = scanLines (split (cleanContent ?T))"
    by (rule parse_of_scan)
  with t show ?thesis by simp
qed

lemma export_reparse_fallback:
  assumes secs: "plan_sections doc = [\<lparr>title = js ''Business Plan'', content = c\<rparr>]"
    and each: "plainText c" "\<forall>l \<in> set (split c). \<not> isSectionHeaderLine l"
    and fields: "plainText (plan_title doc)" "plainText (plan_industry doc)"
        "plainText (plan_createdAt doc)"
    and heading: "\<forall>l \<in> set (split (exportHeading doc)). \<not> isSectionHeaderLine l"
  shows "map title (parseBusinessPlanSections (formatBusinessPlanForExport doc))
      = map title (plan_sections doc)"
proof -
  let ?sec = "\<lparr>title = js ''Business Plan'', content = c\<rparr>"
  let ?S = "js ''Business Plan'' @ [10] @ sectionBody ?sec @ [10]"
  let ?T = "formatBusinessPlanForExport doc"
  have "\<forall>sec \<in> set (plan_sections doc). plainTitle (title sec) \<and> plainText (content sec)"
    using secs each(1) fallback_title_facts by simp
  from export_plain[OF this fields]
  have star: "42 \<notin> set ?T" and hash: "35 \<notin> set ?T" and calm: "noListMarker True ?T"
    by blast+
  have n: "10 \<notin> set (js ''Business Plan'')"
    using fallback_title_facts by (simp add: plainTitle_def)
  have "split ?S = split (js ''Business Plan'') @ split (sectionBody ?sec @ 10 # [])"
    using split_append_feed[of "js ''Business Plan''" "sectionBody ?sec @ [10]"] by simp
  also have "\<dots> = [js ''Business Plan''] @ split (sectionBody ?sec) @ split []"
    by (simp only: split_no_feed[OF n] split_append_feed)
  finally have lS: "split ?S = js ''Business Plan'' # split (sectionBody ?sec) @ [[]]"
    by simp
  have blank: "matchedHeader [] = None" by (rule blank_not_header) (simp add: trim_def)
  have "\<forall>l \<in> set (split (sectionBody ?sec)). matchedHeader l = None"
    by (rule sectionBody_no_header) (use each(2) in simp)
  with blank fallback_title_facts have nS: "\<forall>l \<in> set (split ?S). matchedHeader l = None"
    unfolding lS by auto
  have lines: "split ?T = (split (exportHeading doc) @ [[], ruleLine, []]) @ split ?S"
    using export_lines[of doc] secs by simp
  have "\<forall>l \<in> set (split ?T). matchedHeader l = None"
    unfolding lines using export_heading_lines[OF heading] nS by auto
  then have "outline (split ?T @ []) = ((\<exists>l \<in> set (split ?T). trim l \<noteq> []) \<or> fst (outline []),
      snd (outline []))"
    by (rule outline_no_header)
  then have "snd (outline (split ?T)) = []" by simp
  then have "map title (scanLines (split (cleanContent ?T))) = []"
    unfolding titles_of_plain_text[OF star hash calm] by simp
  then have "scanLines (split (cleanContent ?T)) = []" by simp
  then have "parseBusinessPlanSections ?T
      = [\<lparr>title = js ''Business Plan'', content = formatSectionContent (cleanContent ?T)\<rparr>]"
    by (simp add: parseBusinessPlanSections_def Let_def)
  with secs show ?thesis by simp
qed

section \<open>The sections of a text\<close>

lemma block_title_nonempty: "b \<in> set (sectionBlocks ls) \<Longrightarrow> fst b \<noteq> []"
proof -
  assume "b \<in> set (sectionBlocks ls)"
  then have "(fst b, snd b) \<in> set (snd (headerBlocks ls))" by (simp add: sectionBlocks_def)
  then show "fst b \<noteq> []"
    using headerBlocks_titles_in_catalog sectionHeaders_nonempty by blast
qed

lemma emit_live:
  "\<forall>b \<in> set bs. fst b \<noteq> [] \<Longrightarrow>
     concat (map emitSection bs) = map sectionOf (filter (\<lambda>b. trim (snd b) \<noteq> []) bs)"
  by (induction bs) (auto simp: emitSection_def sectionOf_def)

lemma scanLines_live: "scanLines ls = map sectionOf (liveBlocks ls)"
  unfolding scanLines_blocks liveBlocks_def
  by (rule emit_live) (simp add: block_title_nonempty)

lemma parse_blocks:
  "parseBusinessPlanSections text =
     (if liveBlocks (split (cleanContent text)) = []
      then [\<lparr>title = js ''Business Plan'', content = normalizeText text\<rparr>]
      else map sectionOf (liveBlocks (split (cleanContent text))))"
  by (simp add: parseBusinessPlanSections_def Let_def scanLines_live normalizeText_def)

lemma title_sectionOf: "title (sectionOf b) = fst b"
  by (simp add: sectionOf_def)

lemma fallback_title_not_in_catalog: "js ''Business Plan'' \<notin> set sectionHeaders"
  by code_simp

lemma liveBlocks_title_in_catalog: "b \<in> set (liveBlocks ls) \<Longrightarrow> fst b \<in> set sectionHeaders"
proof -
  assume "b \<in> set (liveBlocks ls)"
  then have "(fst b, snd b) \<in> set (snd (headerBlocks ls))"
    by (simp add: liveBlocks_def sectionBlocks_def)
  then show ?thesis by (rule headerBlocks_titles_in_catalog)
qed

lemma sectionBlocks_skip_preamble:
  "sectionBlocks ls = sectionBlocks (dropWhile (\<lambda>line. \<not> isSectionHeaderLine line) ls)"
proof -
  let ?P = "\<lambda>line. \<not> isSectionHeaderLine line"
  have "\<forall>l \<in> set (takeWhile ?P ls). matchedHeader l = None"
    by (auto simp: matchedHeader_None_iff dest: set_takeWhileD)
  then have "snd (headerBlocks (takeWhile ?P ls @ dropWhile ?P ls))
      = snd (headerBlocks (dropWhile ?P ls))"
    by (rule headerBlocks_skip_preamble)
  then show ?thesis by (simp add: sectionBlocks_def)
qed

section \<open>The title lines of the export\<close>

lemma dashes_ink: "0 < n \<Longrightarrow> trim (replicate n 45) \<noteq> []"
  by (auto simp: trim_empty_iff isSpace_def isLineTerminator_def)

lemma outline_sectionLines:
  assumes "length secs = length bodies"
    and "\<forall>sec \<in> set secs. title sec \<in> set sectionHeaders"
    and "\<forall>body \<in> set bodies. \<forall>l \<in> set body. matchedHeader l = None"
  shows "snd (outline (concat (map2 sectionLines secs bodies)))
      = map (\<lambda>sec. (title sec, True)) secs"
  using assms
proof (induction secs bodies rule: list_induct2)
  case Nil
  show ?case by simp
next
  case (Cons sec secs body bodies)
  let ?rest = "concat (map2 sectionLines secs bodies)"
  let ?E = "replicate (length (title sec)) 45 # body"
  from Cons.prems have t: "title sec \<in> set sectionHeaders" by simp
  with catalog_title_facts have m: "matchedHeader (title sec) = Some (title sec)"
    and l: "2 \<le> length (title sec)" by blast+
  from Cons.prems dashes_not_header have e: "\<forall>l \<in> set ?E. matchedHeader l = None" by simp
  from l have "0 < length (title sec)" by arith
  then have "trim (replicate (length (title sec)) 45) \<noteq> []" by (rule dashes_ink)
  then have i: "\<exists>l \<in> set ?E. trim l \<noteq> []" by simp
  have "outline (title sec # ?E @ ?rest) = (False, (title sec, True) # snd (outline ?rest))"
    using m e i by (rule outline_block)
  moreover have "snd (outline ?rest) = map (\<lambda>sec. (title sec, True)) secs"
    using Cons by simp
  ultimately show ?case by (simp add: sectionLines_def)
qed

lemma export_section_lines:
  assumes "\<forall>sec \<in> set secs. 10 \<notin> set (title sec)"
  shows "split (concat (map (\<lambda>hb. fst hb @ [10] @ snd hb @ [10])
         (map (\<lambda>sec. (title sec, sectionBody sec)) secs)))
     = concat (map (\<lambda>sec. sectionLines sec ([] # split (content sec) @ [[]])) secs) @ [[]]"
  using assms
proof (induction secs)
  case Nil
  show ?case by simp
next
  case (Cons sec secs)
  let ?S = "concat (map (\<lambda>hb. fst hb @ [10] @ snd hb @ [10])
         (map (\<lambda>sec. (title sec, sectionBody sec)) secs))"
  from Cons.prems have n: "10 \<notin> set (title sec)" by simp
  have "split (title sec @ 10 # sectionBody sec @ 10 # ?S)
      = split (title sec) @ split (sectionBody sec @ 10 # ?S)"
    by (rule split_append_feed)
  also have "\<dots> = [title sec] @ split (sectionBody sec) @ split ?S"
    by (simp only: split_no_feed[OF n] split_append_feed)
  finally have "split (title sec @ 10 # sectionBody sec @ 10 # ?S)
      = sectionLines sec ([] # split (content sec) @ [[]]) @ split ?S"
    by (simp add: sectionBody_lines sectionLines_def)
  with Cons show ?case by simp
qed

lemma export_title_lines:
  assumes "\<forall>sec \<in> set (plan_sections doc). 10 \<notin> set (title sec)"
  shows "split (formatBusinessPlanForExport doc)
     = split (exportHeading doc) @ [[], ruleLine, []]
       @ concat (map (\<lambda>sec. sectionLines sec ([] # split (content sec) @ [[]]))
           (plan_sections doc))
       @ [[]]"
  unfolding export_lines export_section_lines[OF assms] by simp

lemma reparse_title_lines:
  assumes secs: "plan_sections doc \<noteq> []"
    and titles: "\<forall>sec \<in> set (plan_sections doc). title sec \<in> set sectionHeaders"
    and len: "length bodies = length (plan_sections doc)"
    and lines: "split (cleanContent (formatBusinessPlanForExport doc))
        = heading @ concat (map2 sectionLines (plan_sections doc) bodies)"
    and heading: "\<forall>l \<in> set heading. \<not> isSectionHeaderLine l"
    and bodies: "\<forall>body \<in> set bodies. \<forall>l \<in> set body. \<not> isSectionHeaderLine l"
  shows "map title (parseBusinessPlanSections (formatBusinessPlanForExport doc))
      = map title (plan_sections doc)"
proof -
  let ?T = "formatBusinessPlanForExport doc"
  let ?S = "concat (map2 sectionLines (plan_sections doc) bodies)"
  from heading have h: "\<forall>l \<in> set heading. matchedHeader l = None"
    by (simp add: matchedHeader_None_iff)
  from bodies have b: "\<forall>body \<in> set bodies. \<forall>l \<in> set body. matchedHeader l = None"
    by (simp add: matchedHeader_None_iff)
  have "snd (outline (heading @ ?S)) = snd (outline ?S)"
    by (simp only: outline_no_header[OF h] snd_conv)
  also have "\<dots> = map (\<lambda>sec. (title sec, True)) (plan_sections doc)"
    using len[symmetric] titles b by (rule outline_sectionLines)
  finally have "map title (scanLines (split (cleanContent ?T))) = map title (plan_sections doc)"
    unfolding scanLines_titles lines by (simp add: comp_def)
  moreover from this secs have "scanLines (split (cleanContent ?T)) \<noteq> []" by auto
  then have "parseBusinessPlanSections ?T = scanLines (split (cleanContent ?T))"
    by (rule parse_of_scan)
  ultimately show ?thesis by simp
qed

section \<open>The claims\<close>

text \<open>
  Claim C9. The text with the two numbered headers "1. Executive Summary" and
  "2. Market Analysis", each followed by one line of prose, parses to exactly two sections:
  "Executive Summary" with the content "We sell widgets." and "Market Analysis" with the
  content "Growing market.".
\<close>

theorem parse_two_numbered_sections:
  "parseBusinessPlanSections
     (js ''1. Executive Summary\<newline>We sell widgets.\<newline>\<newline>2. Market Analysis\<newline>Growing market.\<newline>'')
   = [\<lparr>title = js ''Executive Summary'', content = js ''We sell widgets.''\<rparr>,
      \<lparr>title = js ''Market Analysis'', content = js ''Growing market.''\<rparr>]"
  by code_simp

text \<open>
  Claim C7. The parser is a total function (every function it is made of is defined by
  terminating recursion and has no failing branch) and its result is never the empty
  list: it is the single fallback section or the sections of the scan. The empty text
  and a text whose headers are followed by blank content only give the fallback section.
\<close>

theorem parser_total_nonempty:
  "parseBusinessPlanSections text \<noteq> []
   \<and> (parseBusinessPlanSections text =
         [\<lparr>title = js ''Business Plan'', content = normalizeText text\<rparr>]
       \<or> parseBusinessPlanSections text = scanLines (split (cleanContent text)))
   \<and> parseBusinessPlanSections [] = [\<lparr>title = js ''Business Plan'', content = []\<rparr>]
   \<and> parseBusinessPlanSections (js ''1. Executive Summary\<newline>   \<newline>2. Market Analysis\<newline>'')
       = [\<lparr>title = js ''Business Plan'',
           content = js ''1. Executive Summary\<newline>2. Market Analysis''\<rparr>]"
proof -
  have a: "parseBusinessPlanSections text \<noteq> []"
    by (simp add: parseBusinessPlanSections_def Let_def)
  have b: "parseBusinessPlanSections text =
         [\<lparr>title = js ''Business Plan'', content = normalizeText text\<rparr>]
       \<or> parseBusinessPlanSections text = scanLines (split (cleanContent text))"
    by (simp add: parseBusinessPlanSections_def Let_def normalizeText_def)
  have c: "parseBusinessPlanSections [] = [\<lparr>title = js ''Business Plan'', content = []\<rparr>]"
    by code_simp
  have d: "parseBusinessPlanSections (js ''1. Executive Summary\<newline>   \<newline>2. Market Analysis\<newline>'')
       = [\<lparr>title = js ''Business Plan'',
           content = js ''1. Executive Summary\<newline>2. Market Analysis''\<rparr>]"
    by code_simp
  from a b c d show ?thesis by blast
qed

text \<open>
  Claim C8. The prompt contains the value of every field of the input, each behind the
  name of its field: "Business Name: ", "Industry: ", "Business Type: ", "Location: ",
  "Target Audience: ", "Unique Value Proposition: ", "Revenue Model: " and "Goals: ".
\<close>

theorem prompt_embeds_every_field:
  "strIncludes (createBusinessPlanPrompt input) (js ''Business Name: '' @ businessName input)
   \<and> strIncludes (createBusinessPlanPrompt input) (js ''Industry: '' @ industry input)
   \<and> strIncludes (createBusinessPlanPrompt input) (js ''Business Type: '' @ businessType input)
   \<and> strIncludes (createBusinessPlanPrompt input) (js ''Location: '' @ location input)
   \<and> strIncludes (createBusinessPlanPrompt input) (js ''Target Audience: '' @ targetAudience input)
   \<and> strIncludes (createBusinessPlanPrompt input)
        (js ''Unique Value Proposition: '' @ uniqueValue input)
   \<and> strIncludes (createBusinessPlanPrompt input) (js ''Revenue Model: '' @ revenueModel input)
   \<and> strIncludes (createBusinessPlanPrompt input) (js ''Goals: '' @ goals input)
   \<and> strIncludes (createBusinessPlanPrompt input) (businessName input)
   \<and> strIncludes (createBusinessPlanPrompt input) (industry input)
   \<and> strIncludes (createBusinessPlanPrompt input) (businessType input)
   \<and> strIncludes (createBusinessPlanPrompt input) (location input)
   \<and> strIncludes (createBusinessPlanPrompt input) (targetAudience input)
   \<and> strIncludes (createBusinessPlanPrompt input) (uniqueValue input)
   \<and> strIncludes (createBusinessPlanPrompt input) (revenueModel input)
   \<and> strIncludes (createBusinessPlanPrompt input) (goals input)"
proof -
  have f1: "strIncludes (createBusinessPlanPrompt input)
      (js ''Business Name: '' @ businessName input)"
    unfolding createBusinessPlanPrompt_def
    by (rule strIncludes_here | rule strIncludes_later)+
  have f2: "strIncludes (createBusinessPlanPrompt input) (js ''Industry: '' @ industry input)"
    unfolding createBusinessPlanPrompt_def
    by (rule strIncludes_here | rule strIncludes_later)+
  have f3: "strIncludes (createBusinessPlanPrompt input)
      (js ''Business Type: '' @ businessType input)"
    unfolding createBusinessPlanPrompt_def
    by (rule strIncludes_here | rule strIncludes_later)+
  have f4: "strIncludes (createBusinessPlanPrompt input) (js ''Location: '' @ location input)"
    unfolding createBusinessPlanPrompt_def
    by (rule strIncludes_here | rule strIncludes_later)+
  have f5: "strIncludes (createBusinessPlanPrompt input)
      (js ''Target Audience: '' @ targetAudience input)"
    unfolding createBusinessPlanPrompt_def
    by (rule strIncludes_here | rule strIncludes_later)+
  have f6: "strIncludes (createBusinessPlanPrompt input)
      (js ''Unique Value Proposition: '' @ uniqueValue input)"
    unfolding createBusinessPlanPrompt_def
    by (rule strIncludes_here | rule strIncludes_later)+
  have f7: "strIncludes (createBusinessPlanPrompt input)
      (js ''Revenue Model: '' @ revenueModel input)"
    unfolding createBusinessPlanPrompt_def
    by (rule strIncludes_here | rule strIncludes_later)+
  have f8: "strIncludes (createBusinessPlanPrompt input) (js ''Goals: '' @ goals input)"
    unfolding createBusinessPlanPrompt_def
    by (rule strIncludes_here | rule strIncludes_later)+
  show ?thesis
    by (intro conjI f1 f2 f3 f4 f5 f6 f7 f8
        strIncludes_part[OF f1] strIncludes_part[OF f2] strIncludes_part[OF f3]
        strIncludes_part[OF f4] strIncludes_part[OF f5] strIncludes_part[OF f6]
        strIncludes_part[OF f7] strIncludes_part[OF f8])
qed

text \<open>
  Claim C1. The test of the loop, \<open>sectionHeaders.find\<close>, returns the first catalog title that
  the line shows as a header, so the loop takes a line as a section header exactly when
  the line satisfies the header rule: its trimmed, lowercased text contains a lowercased
  catalog title as a substring, and the trimmed line starts with one or more digits
  followed by a period or equals that title up to case. On a header the open section is
  pushed and a section with the matched title is opened, otherwise the line is appended to
  the open content. A line that has neither shape is not a header, whatever title it
  mentions. The case of the letters does not count: "1. MARKET ANALYSIS", "executive
  summary" and "Risk Analysis" written with the Kelvin sign are headers; of two titles in
  a numbered line the one that comes first in the catalog is matched; a title in prose,
  followed by a colon or behind digits without a period is no header.
\<close>

theorem header_recognition_rule:
  "matchedHeader line = List.find (lineShowsTitle line) sectionHeaders
   \<and> (matchedHeader line \<noteq> None) = isSectionHeaderLine line
   \<and> processLine st line =
       (if isSectionHeaderLine line
        then \<lparr>sections = pushCurrent st, currentSection = the (matchedHeader line),
              currentContent = []\<rparr>
        else st\<lparr>currentContent := currentContent st @ line @ [10]\<rparr>)
   \<and> (\<not> hasOrdinalShape (trim line)
        \<and> toLowerCase (trim line) \<notin> set (map toLowerCase sectionHeaders)
        \<longrightarrow> \<not> isSectionHeaderLine line)
   \<and> matchedHeader (js ''1. MARKET ANALYSIS'') = Some (js ''Market Analysis'')
   \<and> matchedHeader (js ''  executive summary '') = Some (js ''Executive Summary'')
   \<and> matchedHeader (js ''Ris'' @ [8490] @ js '' Analysis'') = Some (js ''Risk Analysis'')
   \<and> matchedHeader (js ''1. MAR'' @ [8490] @ js ''ET ANALYSIS'') = Some (js ''Market Analysis'')
   \<and> matchedHeader (js ''12.Appendices and more'') = Some (js ''Appendices'')
   \<and> matchedHeader (js ''3. Market Analysis after the Executive Summary'')
       = Some (js ''Executive Summary'')
   \<and> matchedHeader (js ''Our MARKET ANALYSIS follows'') = None
   \<and> matchedHeader (js ''Market Analysis:'') = None
   \<and> matchedHeader (js ''1 Market Analysis'') = None
   \<and> matchedHeader (js ''No. 1. Market Analysis'') = None"
proof (intro conjI)
  show "matchedHeader line = List.find (lineShowsTitle line) sectionHeaders"
    by (rule matchedHeader_find)
  show "(matchedHeader line \<noteq> None) = isSectionHeaderLine line"
    by (simp add: matchedHeader_None_iff)
  show "processLine st line =
       (if isSectionHeaderLine line
        then \<lparr>sections = pushCurrent st, currentSection = the (matchedHeader line),
              currentContent = []\<rparr>
        else st\<lparr>currentContent := currentContent st @ line @ [10]\<rparr>)"
  proof (cases "matchedHeader line")
    case None
    with matchedHeader_None_iff[of line] have "\<not> isSectionHeaderLine line" by simp
    with None show ?thesis by (simp add: processLine_def)
  next
    case (Some h)
    with matchedHeader_None_iff[of line] have "isSectionHeaderLine line" by simp
    with Some show ?thesis by (simp add: processLine_def)
  qed
  show "\<not> hasOrdinalShape (trim line)
        \<and> toLowerCase (trim line) \<notin> set (map toLowerCase sectionHeaders)
        \<longrightarrow> \<not> isSectionHeaderLine line"
    by (auto simp: isSectionHeaderLine_def lineShowsTitle_def)
  show "matchedHeader (js ''1. MARKET ANALYSIS'') = Some (js ''Market Analysis'')"
    by code_simp
  show "matchedHeader (js ''  executive summary '') = Some (js ''Executive Summary'')"
    by code_simp
  show "matchedHeader (js ''Ris'' @ [8490] @ js '' Analysis'') = Some (js ''Risk Analysis'')"
    by code_simp
  show "matchedHeader (js ''1. MAR'' @ [8490] @ js ''ET ANALYSIS'') = Some (js ''Market Analysis'')"
    by code_simp
  show "matchedHeader (js ''12.Appendices and more'') = Some (js ''Appendices'')"
    by code_simp
  show "matchedHeader (js ''Our MARKET ANALYSIS follows'') = None"
    by code_simp
  show "matchedHeader (js ''Market Analysis:'') = None"
    by code_simp
  show "matchedHeader (js ''3. Market Analysis after the Executive Summary'')
       = Some (js ''Executive Summary'')"
    by code_simp
  show "matchedHeader (js ''1 Market Analysis'') = None"
    by code_simp
  show "matchedHeader (js ''No. 1. Market Analysis'') = None"
    by code_simp
qed

text \<open>
  The rule at the header "1. EXECUTIVE SUMMARY", at the title "risk analysis" in lower case
  and at a line of prose that mentions a title.
\<close>

theorem header_recognition_rule_witness:
  "isSectionHeaderLine (js ''1. EXECUTIVE SUMMARY'')
   \<and> processLine initialState (js ''1. EXECUTIVE SUMMARY'')
       = \<lparr>sections = [], currentSection = js ''Executive Summary'', currentContent = []\<rparr>
   \<and> isSectionHeaderLine (js ''risk analysis'')
   \<and> \<not> hasOrdinalShape (trim (js ''See the EXECUTIVE Summary below''))
   \<and> toLowerCase (trim (js ''See the EXECUTIVE Summary below''))
        \<notin> set (map toLowerCase sectionHeaders)
   \<and> strIncludes (toLowerCase (trim (js ''See the EXECUTIVE Summary below'')))
        (toLowerCase (js ''Executive Summary''))
   \<and> matchedHeader (js ''See the EXECUTIVE Summary below'') = None
   \<and> processLine initialState (js ''See the EXECUTIVE Summary below'')
       = initialState\<lparr>currentContent := js ''See the EXECUTIVE Summary below\<newline>''\<rparr>"
proof -
  have m1: "matchedHeader (js ''1. EXECUTIVE SUMMARY'') = Some (js ''Executive Summary'')"
    by code_simp
  have m3: "matchedHeader (js ''risk analysis'') = Some (js ''Risk Analysis'')"
    by code_simp
  have h3: "pushCurrent initialState = []" by code_simp
  have p1: "\<not> hasOrdinalShape (trim (js ''See the EXECUTIVE Summary below''))" by code_simp
  have p2: "toLowerCase (trim (js ''See the EXECUTIVE Summary below''))
        \<notin> set (map toLowerCase sectionHeaders)" by code_simp
  have p3: "strIncludes (toLowerCase (trim (js ''See the EXECUTIVE Summary below'')))
        (toLowerCase (js ''Executive Summary''))" by code_simp
  have p4: "currentContent initialState @ js ''See the EXECUTIVE Summary below'' @ [10]
      = js ''See the EXECUTIVE Summary below\<newline>''" by code_simp
  note r1 = header_recognition_rule[of "js ''1. EXECUTIVE SUMMARY''" initialState]
  note r2 = header_recognition_rule[of "js ''See the EXECUTIVE Summary below''" initialState]
  note r3 = header_recognition_rule[of "js ''risk analysis''" initialState]
  from r1 m1 have h1: "isSectionHeaderLine (js ''1. EXECUTIVE SUMMARY'')" by simp
  from r3 m3 have h2: "isSectionHeaderLine (js ''risk analysis'')" by simp
  from r2 p1 p2 have n: "\<not> isSectionHeaderLine (js ''See the EXECUTIVE Summary below'')"
    by blast
  with r2 have m: "matchedHeader (js ''See the EXECUTIVE Summary below'') = None" by blast
  from r1 h1 m1 h3 have s1: "processLine initialState (js ''1. EXECUTIVE SUMMARY'')
       = \<lparr>sections = [], currentSection = js ''Executive Summary'', currentContent = []\<rparr>"
    by simp
  from r2 n p4 have s2: "processLine initialState (js ''See the EXECUTIVE Summary below'')
       = initialState\<lparr>currentContent := js ''See the EXECUTIVE Summary below\<newline>''\<rparr>"
    by simp
  from h1 s1 h2 p1 p2 p3 m s2 show ?thesis by blast
qed



text \<open>
  Claim C6, as stated, fails: the title "Market Analysis" is recognised on two lines and
  each is followed by content that is not empty, but the content behind the first is three
  spaces, which the test \<open>currentContent.trim()\<close> takes as nothing; one section is returned.
\<close>

theorem blank_content_drops_repeated_header_counterexample:
  "split (cleanContent (js ''1. Market Analysis\<newline>   \<newline>2. Market Analysis\<newline>Growing.''))
     = [js ''1. Market Analysis'', js ''   '', js ''2. Market Analysis'', js ''Growing.'']
   \<and> matchedHeader (js ''1. Market Analysis'') = Some (js ''Market Analysis'')
   \<and> matchedHeader (js ''   '') = None
   \<and> matchedHeader (js ''2. Market Analysis'') = Some (js ''Market Analysis'')
   \<and> matchedHeader (js ''Growing.'') = None
   \<and> parseBusinessPlanSections
        (js ''1. Market Analysis\<newline>   \<newline>2. Market Analysis\<newline>Growing.'')
     = [\<lparr>title = js ''Market Analysis'', content = js ''Growing.''\<rparr>]"
  by code_simp

text \<open>
  Claim C6, amended. The blocks of the header lines carry, in the order of the lines, the
  titles that the header lines match. When some block has content that is not blank, the
  parser returns exactly one section for every block whose content is not blank, in the
  order of the header lines (not the order of the catalog); blocks are never merged, so
  the sections with a given catalog title are the blocks of that title whose content is
  not blank, one section each, in the order of the lines. When every line on which a
  catalog title is recognised is followed by content that is not blank, the sections with
  that title are the blocks of all those lines, whatever follows the other headers.
\<close>

theorem header_lines_with_content_give_sections_in_line_order:
  "map fst (sectionBlocks (split (cleanContent text)))
     = List.map_filter matchedHeader (split (cleanContent text))
   \<and> (liveBlocks (split (cleanContent text)) \<noteq> [] \<longrightarrow>
        parseBusinessPlanSections text = map sectionOf (liveBlocks (split (cleanContent text)))
        \<and> map title (parseBusinessPlanSections text)
            = map fst (liveBlocks (split (cleanContent text))))
   \<and> (t \<in> set sectionHeaders \<longrightarrow>
        filter (\<lambda>sec. title sec = t) (parseBusinessPlanSections text)
          = map sectionOf (filter (\<lambda>b. fst b = t) (liveBlocks (split (cleanContent text)))))
   \<and> (t \<in> set sectionHeaders
        \<and> (\<forall>b \<in> set (sectionBlocks (split (cleanContent text))).
              fst b = t \<longrightarrow> trim (snd b) \<noteq> [])
        \<longrightarrow> filter (\<lambda>sec. title sec = t) (parseBusinessPlanSections text)
          = map sectionOf (filter (\<lambda>b. fst b = t) (sectionBlocks (split (cleanContent text)))))"
proof (intro conjI impI)
  let ?live = "liveBlocks (split (cleanContent text))"
  show "map fst (sectionBlocks (split (cleanContent text)))
     = List.map_filter matchedHeader (split (cleanContent text))"
    by (simp add: sectionBlocks_def headerBlocks_titles)
  {
    assume "?live \<noteq> []"
    then show p: "parseBusinessPlanSections text = map sectionOf ?live"
      by (simp add: parse_blocks)
    then show "map title (parseBusinessPlanSections text) = map fst ?live"
      by (simp add: comp_def title_sectionOf)
  }
  have each: "filter (\<lambda>sec. title sec = t) (parseBusinessPlanSections text)
          = map sectionOf (filter (\<lambda>b. fst b = t) ?live)" if t: "t \<in> set sectionHeaders"
  proof (cases "?live = []")
    case True
    from t fallback_title_not_in_catalog have "js ''Business Plan'' \<noteq> t" by blast
    with True show ?thesis by (simp add: parse_blocks)
  next
    case False
    then show ?thesis by (simp add: parse_blocks filter_map comp_def title_sectionOf)
  qed
  {
    assume "t \<in> set sectionHeaders"
    then show "filter (\<lambda>sec. title sec = t) (parseBusinessPlanSections text)
          = map sectionOf (filter (\<lambda>b. fst b = t) ?live)"
      by (rule each)
  }
  assume a: "t \<in> set sectionHeaders
        \<and> (\<forall>b \<in> set (sectionBlocks (split (cleanContent text))).
              fst b = t \<longrightarrow> trim (snd b) \<noteq> [])"
  then have "filter (\<lambda>b. fst b = t) ?live
      = filter (\<lambda>b. fst b = t) (sectionBlocks (split (cleanContent text)))"
    unfolding liveBlocks_def filter_filter by (intro filter_cong) auto
  with a each show "filter (\<lambda>sec. title sec = t) (parseBusinessPlanSections text)
          = map sectionOf (filter (\<lambda>b. fst b = t) (sectionBlocks (split (cleanContent text))))"
    by simp
qed

text \<open>
  "Market Analysis" twice, around "Company Description" and behind an "Executive Summary"
  without content: three sections in the order of the lines, two of them titled "Market
  Analysis".
\<close>

theorem header_lines_with_content_give_sections_in_line_order_witness:
  "sectionBlocks (split (cleanContent
      (js ''1. Executive Summary\<newline>\<newline>3. Market Analysis\<newline>a\<newline>2. Company Description\<newline>c\<newline>4. Market Analysis\<newline>b'')))
     = [(js ''Executive Summary'', js ''\<newline>''), (js ''Market Analysis'', js ''a\<newline>''),
        (js ''Company Description'', js ''c\<newline>''), (js ''Market Analysis'', js ''b\<newline>'')]
   \<and> liveBlocks (split (cleanContent
      (js ''1. Executive Summary\<newline>\<newline>3. Market Analysis\<newline>a\<newline>2. Company Description\<newline>c\<newline>4. Market Analysis\<newline>b'')))
     = [(js ''Market Analysis'', js ''a\<newline>''), (js ''Company Description'', js ''c\<newline>''),
        (js ''Market Analysis'', js ''b\<newline>'')]
   \<and> js ''Market Analysis'' \<in> set sectionHeaders
   \<and> trim (js ''a\<newline>'') \<noteq> [] \<and> trim (js ''b\<newline>'') \<noteq> []
   \<and> parseBusinessPlanSections
      (js ''1. Executive Summary\<newline>\<newline>3. Market Analysis\<newline>a\<newline>2. Company Description\<newline>c\<newline>4. Market Analysis\<newline>b'')
     = [\<lparr>title = js ''Market Analysis'', content = js ''a''\<rparr>,
        \<lparr>title = js ''Company Description'', content = js ''c''\<rparr>,
        \<lparr>title = js ''Market Analysis'', content = js ''b''\<rparr>]
   \<and> filter (\<lambda>sec. title sec = js ''Market Analysis'') (parseBusinessPlanSections
      (js ''1. Executive Summary\<newline>\<newline>3. Market Analysis\<newline>a\<newline>2. Company Description\<newline>c\<newline>4. Market Analysis\<newline>b''))
     = [\<lparr>title = js ''Market Analysis'', content = js ''a''\<rparr>,
        \<lparr>title = js ''Market Analysis'', content = js ''b''\<rparr>]"
proof -
  let ?t = "js ''1. Executive Summary\<newline>\<newline>3. Market Analysis\<newline>a\<newline>2. Company Description\<newline>c\<newline>4. Market Analysis\<newline>b''"
  let ?all = "[(js ''Executive Summary'', js ''\<newline>''), (js ''Market Analysis'', js ''a\<newline>''),
        (js ''Company Description'', js ''c\<newline>''), (js ''Market Analysis'', js ''b\<newline>'')]"
  let ?live = "[(js ''Market Analysis'', js ''a\<newline>''), (js ''Company Description'', js ''c\<newline>''),
        (js ''Market Analysis'', js ''b\<newline>'')]"
  have sb: "sectionBlocks (split (cleanContent ?t)) = ?all" by code_simp
  have bs: "liveBlocks (split (cleanContent ?t)) = ?live" by code_simp
  have ne: "liveBlocks (split (cleanContent ?t)) \<noteq> []" unfolding bs by simp
  have c: "js ''Market Analysis'' \<in> set sectionHeaders" by code_simp
  have n: "trim (js ''a\<newline>'') \<noteq> []" "trim (js ''b\<newline>'') \<noteq> []" by code_simp+
  have d: "js ''Executive Summary'' \<noteq> js ''Market Analysis''"
    "js ''Company Description'' \<noteq> js ''Market Analysis''" by code_simp+
  have every: "\<forall>b \<in> set (sectionBlocks (split (cleanContent ?t))).
      fst b = js ''Market Analysis'' \<longrightarrow> trim (snd b) \<noteq> []"
    unfolding sb using n d by simp
  have m: "map sectionOf ?live
     = [\<lparr>title = js ''Market Analysis'', content = js ''a''\<rparr>,
        \<lparr>title = js ''Company Description'', content = js ''c''\<rparr>,
        \<lparr>title = js ''Market Analysis'', content = js ''b''\<rparr>]"
    by code_simp
  have f: "map sectionOf (filter (\<lambda>b. fst b = js ''Market Analysis'') ?all)
     = [\<lparr>title = js ''Market Analysis'', content = js ''a''\<rparr>,
        \<lparr>title = js ''Market Analysis'', content = js ''b''\<rparr>]"
    by code_simp
  note r = header_lines_with_content_give_sections_in_line_order[of ?t "js ''Market Analysis''"]
  from r ne have "parseBusinessPlanSections ?t = map sectionOf (liveBlocks (split (cleanContent ?t)))"
    by blast
  then have p: "parseBusinessPlanSections ?t
     = [\<lparr>title = js ''Market Analysis'', content = js ''a''\<rparr>,
        \<lparr>title = js ''Company Description'', content = js ''c''\<rparr>,
        \<lparr>title = js ''Market Analysis'', content = js ''b''\<rparr>]"
    unfolding bs m .
  from r c every
  have "filter (\<lambda>sec. title sec = js ''Market Analysis'') (parseBusinessPlanSections ?t)
     = map sectionOf (filter (\<lambda>b. fst b = js ''Market Analysis'')
         (sectionBlocks (split (cleanContent ?t))))"
    by blast
  then have q: "filter (\<lambda>sec. title sec = js ''Market Analysis'') (parseBusinessPlanSections ?t)
     = [\<lparr>title = js ''Market Analysis'', content = js ''a''\<rparr>,
        \<lparr>title = js ''Market Analysis'', content = js ''b''\<rparr>]"
    unfolding sb f .
  from sb bs c n p q show ?thesis by blast
qed

text \<open>
  Claim C10, as stated, fails: a text with a recognised header whose content is blank
  falls back to the single section, which holds the whole text, the line before the
  header included.
\<close>

theorem preamble_kept_by_fallback_counterexample:
  "split (cleanContent (js ''Welcome\<newline>1. Executive Summary''))
     = [js ''Welcome'', js ''1. Executive Summary'']
   \<and> \<not> isSectionHeaderLine (js ''Welcome'')
   \<and> isSectionHeaderLine (js ''1. Executive Summary'')
   \<and> parseBusinessPlanSections (js ''Welcome\<newline>1. Executive Summary'')
     = [\<lparr>title = js ''Business Plan'', content = js ''Welcome\<newline>1. Executive Summary''\<rparr>]"
  by code_simp

text \<open>
  Claim C10, amended. When some recognised header is followed by content that is not
  blank, the result is what the scan gives on the lines from the first header line on:
  the lines before the first header contribute to no section. When every recognised
  header is followed by blank content only, the result is the fallback section, which
  holds the whole normalised text, the lines before the first header included.
\<close>

theorem preamble_discarded_when_a_section_is_emitted:
  "((\<exists>b \<in> set (sectionBlocks (split (cleanContent text))). trim (snd b) \<noteq> []) \<longrightarrow>
      parseBusinessPlanSections text =
        scanLines (dropWhile (\<lambda>line. \<not> isSectionHeaderLine line) (split (cleanContent text)))
      \<and> parseBusinessPlanSections text =
        map sectionOf (liveBlocks
          (dropWhile (\<lambda>line. \<not> isSectionHeaderLine line) (split (cleanContent text)))))
   \<and> ((\<forall>b \<in> set (sectionBlocks (split (cleanContent text))). trim (snd b) = []) \<longrightarrow>
      parseBusinessPlanSections text =
        [\<lparr>title = js ''Business Plan'', content = normalizeText text\<rparr>])"
proof (intro conjI impI)
  let ?ls = "split (cleanContent text)"
  let ?P = "\<lambda>line. \<not> isSectionHeaderLine line"
  have eq: "liveBlocks ?ls = liveBlocks (dropWhile ?P ?ls)"
    unfolding liveBlocks_def by (subst sectionBlocks_skip_preamble) simp
  {
    assume "\<exists>b \<in> set (sectionBlocks ?ls). trim (snd b) \<noteq> []"
    then have "liveBlocks ?ls \<noteq> []" by (auto simp: liveBlocks_def filter_empty_conv)
    then have "parseBusinessPlanSections text = map sectionOf (liveBlocks ?ls)"
      by (simp add: parse_blocks)
    with eq show p: "parseBusinessPlanSections text = map sectionOf (liveBlocks (dropWhile ?P ?ls))"
      by simp
    then show "parseBusinessPlanSections text = scanLines (dropWhile ?P ?ls)"
      by (simp add: scanLines_live)
  }
  assume "\<forall>b \<in> set (sectionBlocks ?ls). trim (snd b) = []"
  then have "liveBlocks ?ls = []" by (auto simp: liveBlocks_def filter_empty_conv)
  then show "parseBusinessPlanSections text =
        [\<lparr>title = js ''Business Plan'', content = normalizeText text\<rparr>]"
    by (simp add: parse_blocks)
qed

text \<open>
  A line before the first header is dropped when a section is emitted, and kept by the
  fallback section when both headers are followed by blank content.
\<close>

theorem preamble_discarded_when_a_section_is_emitted_witness:
  "sectionBlocks (split (cleanContent
      (js ''Welcome\<newline>1. Executive Summary\<newline>We sell widgets.'')))
     = [(js ''Executive Summary'', js ''We sell widgets.\<newline>'')]
   \<and> trim (js ''We sell widgets.\<newline>'') \<noteq> []
   \<and> dropWhile (\<lambda>line. \<not> isSectionHeaderLine line) (split (cleanContent
      (js ''Welcome\<newline>1. Executive Summary\<newline>We sell widgets.'')))
     = [js ''1. Executive Summary'', js ''We sell widgets.'']
   \<and> parseBusinessPlanSections (js ''Welcome\<newline>1. Executive Summary\<newline>We sell widgets.'')
     = [\<lparr>title = js ''Executive Summary'', content = js ''We sell widgets.''\<rparr>]
   \<and> sectionBlocks (split (cleanContent
      (js ''Welcome\<newline>1. Executive Summary\<newline>   \<newline>2. MARKET ANALYSIS'')))
     = [(js ''Executive Summary'', js ''   \<newline>''), (js ''Market Analysis'', [])]
   \<and> trim (js ''   \<newline>'') = []
   \<and> parseBusinessPlanSections
      (js ''Welcome\<newline>1. Executive Summary\<newline>   \<newline>2. MARKET ANALYSIS'')
     = [\<lparr>title = js ''Business Plan'',
         content = js ''Welcome\<newline>1. Executive Summary\<newline>2. MARKET ANALYSIS''\<rparr>]"
proof -
  let ?t = "js ''Welcome\<newline>1. Executive Summary\<newline>We sell widgets.''"
  let ?u = "js ''Welcome\<newline>1. Executive Summary\<newline>   \<newline>2. MARKET ANALYSIS''"
  have bs: "sectionBlocks (split (cleanContent ?t))
      = [(js ''Executive Summary'', js ''We sell widgets.\<newline>'')]" by code_simp
  have nb: "trim (js ''We sell widgets.\<newline>'') \<noteq> []" by code_simp
  have h: "\<exists>b \<in> set (sectionBlocks (split (cleanContent ?t))). trim (snd b) \<noteq> []"
    unfolding bs using nb by simp
  have d: "dropWhile (\<lambda>line. \<not> isSectionHeaderLine line) (split (cleanContent ?t))
     = [js ''1. Executive Summary'', js ''We sell widgets.'']" by code_simp
  have s: "scanLines [js ''1. Executive Summary'', js ''We sell widgets.'']
     = [\<lparr>title = js ''Executive Summary'', content = js ''We sell widgets.''\<rparr>]"
    by code_simp
  have bu: "sectionBlocks (split (cleanContent ?u))
     = [(js ''Executive Summary'', js ''   \<newline>''), (js ''Market Analysis'', [])]"
    by code_simp
  have b1: "trim (js ''   \<newline>'') = []" by code_simp
  have b2: "trim ([] :: jstr) = []" by code_simp
  have hu: "\<forall>b \<in> set (sectionBlocks (split (cleanContent ?u))). trim (snd b) = []"
    unfolding bu using b1 b2 by simp
  have nu: "normalizeText ?u = js ''Welcome\<newline>1. Executive Summary\<newline>2. MARKET ANALYSIS''"
    by code_simp
  from preamble_discarded_when_a_section_is_emitted[of ?t] h
  have "parseBusinessPlanSections ?t =
        scanLines (dropWhile (\<lambda>line. \<not> isSectionHeaderLine line) (split (cleanContent ?t)))"
    by blast
  then have p: "parseBusinessPlanSections ?t
     = [\<lparr>title = js ''Executive Summary'', content = js ''We sell widgets.''\<rparr>]"
    unfolding d s .
  from preamble_discarded_when_a_section_is_emitted[of ?u] hu
  have "parseBusinessPlanSections ?u =
        [\<lparr>title = js ''Business Plan'', content = normalizeText ?u\<rparr>]"
    by blast
  then have q: "parseBusinessPlanSections ?u
     = [\<lparr>title = js ''Business Plan'',
         content = js ''Welcome\<newline>1. Executive Summary\<newline>2. MARKET ANALYSIS''\<rparr>]"
    unfolding nu .
  from bs nb d p bu b1 q show ?thesis by blast
qed

text \<open>
  Claim C5, as stated, fails: of seven hashes and two spaces the pass for header markers
  removes six hashes and one space, and what is left is a header marker again.
\<close>

theorem normalization_not_idempotent_counterexample:
  "normalizeText (js ''#######  x'') = js ''# x''
   \<and> normalizeText (normalizeText (js ''#######  x'')) = js ''x''"
  by code_simp

text \<open>
  Claim C5, amended. Normalising a normalised text returns it unchanged exactly when the
  normalised text has no header marker left (a run of one to six hashes followed by white
  space); this is so for every input without a hash.
\<close>

theorem normalization_idempotent_without_header_markers:
  "(normalizeText (normalizeText s) = normalizeText s)
     = (removeHeaderMarkers (normalizeText s) = normalizeText s)
   \<and> (35 \<notin> set s \<longrightarrow> normalizeText (normalizeText s) = normalizeText s)"
proof -
  have stable: "removeHeaderMarkers (normalizeText s) = normalizeText s \<Longrightarrow>
      normalizeText (normalizeText s) = normalizeText s"
    unfolding normalizeText_def[of "normalizeText s"]
    by (rule normal_form_fixed[OF normalizeText_star_free _ normalizeText_settled
          normalizeText_lineStartsClean normalizeText_trimmed])
  have "35 \<notin> set s \<Longrightarrow> removeHeaderMarkers (normalizeText s) = normalizeText s"
    by (rule removeHeaderMarkers_no_hash) (rule normalizeText_hash_free)
  with stable leftover_marker_breaks_fixpoint[of s] show ?thesis by blast
qed

text \<open>A text with emphasis markers, list markers, blank lines and indentation, and no hash.\<close>

theorem normalization_idempotent_without_header_markers_witness:
  "35 \<notin> set (js ''**Plan**\<newline>\<newline>\<newline>\<newline>-  first\<newline>   * second '')
   \<and> normalizeText (js ''**Plan**\<newline>\<newline>\<newline>\<newline>-  first\<newline>   * second '')
       = [80, 108, 97, 110, 10, 8226, 32, 32, 102, 105, 114, 115, 116, 10,
          115, 101, 99, 111, 110, 100]
   \<and> removeHeaderMarkers
         (normalizeText (js ''**Plan**\<newline>\<newline>\<newline>\<newline>-  first\<newline>   * second ''))
       = normalizeText (js ''**Plan**\<newline>\<newline>\<newline>\<newline>-  first\<newline>   * second '')
   \<and> normalizeText
         (normalizeText (js ''**Plan**\<newline>\<newline>\<newline>\<newline>-  first\<newline>   * second ''))
       = normalizeText (js ''**Plan**\<newline>\<newline>\<newline>\<newline>-  first\<newline>   * second '')"
proof -
  let ?s = "js ''**Plan**\<newline>\<newline>\<newline>\<newline>-  first\<newline>   * second ''"
  have h: "35 \<notin> set ?s" by code_simp
  have v: "normalizeText ?s
       = [80, 108, 97, 110, 10, 8226, 32, 32, 102, 105, 114, 115, 116, 10,
          115, 101, 99, 111, 110, 100]" by code_simp
  have r: "removeHeaderMarkers (normalizeText ?s) = normalizeText ?s"
    unfolding v by code_simp
  from normalization_idempotent_without_header_markers[of ?s] h r v
  show ?thesis by blast
qed




text \<open>
  Claim C4, as stated, fails. A section whose content holds a line shaped like a header
  (content can be edited freely before the export) is split in two by the parser; and a
  document that the parser itself built from a line with eight hashes keeps the text
  "## Market Analysis" in a content, which the next parse strips to a header line. A
  title line can be lost as well: behind a content that ends with a hyphen and a hash the
  cleaning joins the title line of the next section to the hyphen, as a list item.
\<close>

theorem export_reparse_changes_titles_counterexample:
  "map title (plan_sections
     \<lparr>plan_id = js ''1'', plan_title = js ''Acme Business Plan'', plan_industry = js ''Retail'',
      plan_createdAt = js ''11/2/2026'',
      plan_sections =
        [\<lparr>title = js ''Executive Summary'',
          content = js ''Our plan in short.\<newline>2. Market Analysis of the region\<newline>Growing.''\<rparr>],
      plan_status = complete\<rparr>)
   = [js ''Executive Summary'']
   \<and> map title (parseBusinessPlanSections (formatBusinessPlanForExport
     \<lparr>plan_id = js ''1'', plan_title = js ''Acme Business Plan'', plan_industry = js ''Retail'',
      plan_createdAt = js ''11/2/2026'',
      plan_sections =
        [\<lparr>title = js ''Executive Summary'',
          content = js ''Our plan in short.\<newline>2. Market Analysis of the region\<newline>Growing.''\<rparr>],
      plan_status = complete\<rparr>))
   = [js ''Executive Summary'', js ''Market Analysis'']
   \<and> parseBusinessPlanSections
       (js ''1. Executive Summary\<newline>Overview.\<newline>########  Market Analysis\<newline>Growing.'')
   = [\<lparr>title = js ''Executive Summary'',
       content = js ''Overview.\<newline>## Market Analysis\<newline>Growing.''\<rparr>]
   \<and> map title (parseBusinessPlanSections (formatBusinessPlanForExport
     \<lparr>plan_id = js ''2'', plan_title = js ''Acme Business Plan'', plan_industry = js ''Retail'',
      plan_createdAt = js ''11/2/2026'',
      plan_sections = parseBusinessPlanSections
       (js ''1. Executive Summary\<newline>Overview.\<newline>########  Market Analysis\<newline>Growing.''),
      plan_status = complete\<rparr>))
   = [js ''Executive Summary'', js ''Market Analysis'']
   \<and> map title (parseBusinessPlanSections (formatBusinessPlanForExport
     \<lparr>plan_id = js ''3'', plan_title = js ''Acme Business Plan'', plan_industry = js ''Retail'',
      plan_createdAt = js ''11/2/2026'',
      plan_sections =
        [\<lparr>title = js ''Executive Summary'', content = js ''Our plan in short.\<newline>-#''\<rparr>,
         \<lparr>title = js ''Market Analysis'', content = js ''Growing.''\<rparr>],
      plan_status = complete\<rparr>))
   = [js ''Executive Summary'']"
  by code_simp

text \<open>
  Claim C4, amended. The lines of the export are the lines of the heading, the rule of
  equals signs between two empty lines, and for every section, in order, its title line,
  its rule of dashes, an empty line, the lines of its content and an empty line. For a
  document whose sections are titled by the catalog (one section at least): when the
  cleaning keeps that shape, so that the lines of the cleaned export are lines that are no
  headers, followed for every section, in order, by its title line, its rule of dashes
  and lines that are no headers (the title lines are the only header lines of the cleaned
  export), parsing the export gives sections with the titles of the document, in the same
  order. For a document that is the single fallback section: when no header line of the
  cleaned export is followed by content that is not blank, parsing the export gives the
  fallback section again. Both conditions hold for a document whose title, industry, date
  and contents are plain text and in which no line of the heading or of a content is a
  section header.
\<close>

theorem export_reparse_keeps_titles:
  "((\<forall>sec \<in> set (plan_sections doc). 10 \<notin> set (title sec))
     \<longrightarrow> split (formatBusinessPlanForExport doc)
           = split (exportHeading doc) @ [[], ruleLine, []]
             @ concat (map (\<lambda>sec. sectionLines sec ([] # split (content sec) @ [[]]))
                 (plan_sections doc))
             @ [[]])
   \<and> (plan_sections doc \<noteq> []
      \<and> (\<forall>sec \<in> set (plan_sections doc). title sec \<in> set sectionHeaders)
      \<and> length bodies = length (plan_sections doc)
      \<and> split (cleanContent (formatBusinessPlanForExport doc))
          = heading @ concat (map2 sectionLines (plan_sections doc) bodies)
      \<and> (\<forall>l \<in> set heading. \<not> isSectionHeaderLine l)
      \<and> (\<forall>body \<in> set bodies. \<forall>l \<in> set body. \<not> isSectionHeaderLine l)
     \<longrightarrow> map title (parseBusinessPlanSections (formatBusinessPlanForExport doc))
           = map title (plan_sections doc))
   \<and> ((\<exists>c. plan_sections doc = [\<lparr>title = js ''Business Plan'', content = c\<rparr>])
      \<and> (\<forall>b \<in> set (sectionBlocks (split (cleanContent (formatBusinessPlanForExport doc)))).
            trim (snd b) = [])
     \<longrightarrow> map title (parseBusinessPlanSections (formatBusinessPlanForExport doc))
           = map title (plan_sections doc))
   \<and> (((plan_sections doc \<noteq> []
          \<and> (\<forall>sec \<in> set (plan_sections doc). title sec \<in> set sectionHeaders))
        \<or> (\<exists>c. plan_sections doc = [\<lparr>title = js ''Business Plan'', content = c\<rparr>]))
      \<and> (\<forall>sec \<in> set (plan_sections doc). plainText (content sec)
            \<and> (\<forall>l \<in> set (split (content sec)). \<not> isSectionHeaderLine l))
      \<and> plainText (plan_title doc) \<and> plainText (plan_industry doc)
      \<and> plainText (plan_createdAt doc)
      \<and> (\<forall>l \<in> set (split (exportHeading doc)). \<not> isSectionHeaderLine l)
     \<longrightarrow> map title (parseBusinessPlanSections (formatBusinessPlanForExport doc))
           = map title (plan_sections doc))"
proof (intro conjI impI)
  assume "\<forall>sec \<in> set (plan_sections doc). 10 \<notin> set (title sec)"
  then show "split (formatBusinessPlanForExport doc)
           = split (exportHeading doc) @ [[], ruleLine, []]
             @ concat (map (\<lambda>sec. sectionLines sec ([] # split (content sec) @ [[]]))
                 (plan_sections doc))
             @ [[]]"
    by (rule export_title_lines)
next
  assume "plan_sections doc \<noteq> []
      \<and> (\<forall>sec \<in> set (plan_sections doc). title sec \<in> set sectionHeaders)
      \<and> length bodies = length (plan_sections doc)
      \<and> split (cleanContent (formatBusinessPlanForExport doc))
          = heading @ concat (map2 sectionLines (plan_sections doc) bodies)
      \<and> (\<forall>l \<in> set heading. \<not> isSectionHeaderLine l)
      \<and> (\<forall>body \<in> set bodies. \<forall>l \<in> set body. \<not> isSectionHeaderLine l)"
  then show "map title (parseBusinessPlanSections (formatBusinessPlanForExport doc))
           = map title (plan_sections doc)"
    by (intro reparse_title_lines[of doc bodies heading]) blast+
next
  assume a: "(\<exists>c. plan_sections doc = [\<lparr>title = js ''Business Plan'', content = c\<rparr>])
      \<and> (\<forall>b \<in> set (sectionBlocks (split (cleanContent (formatBusinessPlanForExport doc)))).
            trim (snd b) = [])"
  then have "liveBlocks (split (cleanContent (formatBusinessPlanForExport doc))) = []"
    by (auto simp: liveBlocks_def filter_empty_conv)
  then have "map title (parseBusinessPlanSections (formatBusinessPlanForExport doc))
      = [js ''Business Plan'']"
    by (simp add: parse_blocks)
  with a show "map title (parseBusinessPlanSections (formatBusinessPlanForExport doc))
           = map title (plan_sections doc)"
    by auto
next
  assume a: "((plan_sections doc \<noteq> []
          \<and> (\<forall>sec \<in> set (plan_sections doc). title sec \<in> set sectionHeaders))
        \<or> (\<exists>c. plan_sections doc = [\<lparr>title = js ''Business Plan'', content = c\<rparr>]))
      \<and> (\<forall>sec \<in> set (plan_sections doc). plainText (content sec)
            \<and> (\<forall>l \<in> set (split (content sec)). \<not> isSectionHeaderLine l))
      \<and> plainText (plan_title doc) \<and> plainText (plan_industry doc)
      \<and> plainText (plan_createdAt doc)
      \<and> (\<forall>l \<in> set (split (exportHeading doc)). \<not> isSectionHeaderLine l)"
  then have each: "\<forall>sec \<in> set (plan_sections doc). plainText (content sec)
            \<and> (\<forall>l \<in> set (split (content sec)). \<not> isSectionHeaderLine l)"
    and fields: "plainText (plan_title doc)" "plainText (plan_industry doc)"
      "plainText (plan_createdAt doc)"
    and heading: "\<forall>l \<in> set (split (exportHeading doc)). \<not> isSectionHeaderLine l"
    by blast+
  from a consider
      "plan_sections doc \<noteq> []
        \<and> (\<forall>sec \<in> set (plan_sections doc). title sec \<in> set sectionHeaders)"
    | "\<exists>c. plan_sections doc = [\<lparr>title = js ''Business Plan'', content = c\<rparr>]"
    by blast
  then show "map title (parseBusinessPlanSections (formatBusinessPlanForExport doc))
           = map title (plan_sections doc)"
  proof cases
    case 1
    then show ?thesis using each fields heading by (intro export_reparse_catalog) blast+
  next
    case 2
    then obtain c where c: "plan_sections doc = [\<lparr>title = js ''Business Plan'', content = c\<rparr>]"
      by blast
    with each have "plainText c" "\<forall>l \<in> set (split c). \<not> isSectionHeaderLine l" by simp_all
    with c show ?thesis using fields heading by (intro export_reparse_fallback)
  qed
qed

text \<open>
  A document of two sections whose contents hold list items, a hyphen and a hash; a
  fallback section whose content holds a header line without content; and a document of
  two sections with plain contents.
\<close>

theorem export_reparse_keeps_titles_witness:
  "split (formatBusinessPlanForExport
         \<lparr>plan_id = js ''1'', plan_title = js ''Acme Business Plan'',
          plan_industry = js ''Retail'', plan_createdAt = js ''11/2/2026'',
          plan_sections =
            [\<lparr>title = js ''Executive Summary'',
              content = [8226] @ js '' Cheap\<newline>'' @ [8226] @ js '' Fast''\<rparr>,
             \<lparr>title = js ''Market Analysis'',
              content = js ''Growing - fast.\<newline>We are #1 in town.''\<rparr>],
          plan_status = complete\<rparr>)
     = [js ''Acme Business Plan'', js ''Industry: Retail'', js ''Created: 11/2/2026'', [],
        ruleLine, [],
        js ''Executive Summary'', js ''-----------------'', [],
        [8226] @ js '' Cheap'', [8226] @ js '' Fast'', [],
        js ''Market Analysis'', js ''---------------'', [],
        js ''Growing - fast.'', js ''We are #1 in town.'', [], []]
   \<and> list_all (\<lambda>sec. title sec \<in> set sectionHeaders)
     [\<lparr>title = js ''Executive Summary'',
       content = [8226] @ js '' Cheap\<newline>'' @ [8226] @ js '' Fast''\<rparr>,
      \<lparr>title = js ''Market Analysis'',
       content = js ''Growing - fast.\<newline>We are #1 in town.''\<rparr>]
   \<and> split (cleanContent (formatBusinessPlanForExport
         \<lparr>plan_id = js ''1'', plan_title = js ''Acme Business Plan'',
          plan_industry = js ''Retail'', plan_createdAt = js ''11/2/2026'',
          plan_sections =
            [\<lparr>title = js ''Executive Summary'',
              content = [8226] @ js '' Cheap\<newline>'' @ [8226] @ js '' Fast''\<rparr>,
             \<lparr>title = js ''Market Analysis'',
              content = js ''Growing - fast.\<newline>We are #1 in town.''\<rparr>],
          plan_status = complete\<rparr>))
     = [js ''Acme Business Plan'', js ''Industry: Retail'', js ''Created: 11/2/2026'', [],
        ruleLine, []]
       @ concat (map2 sectionLines
           [\<lparr>title = js ''Executive Summary'',
             content = [8226] @ js '' Cheap\<newline>'' @ [8226] @ js '' Fast''\<rparr>,
            \<lparr>title = js ''Market Analysis'',
             content = js ''Growing - fast.\<newline>We are #1 in town.''\<rparr>]
           [[[8226] @ js '' Cheap'', [8226] @ js '' Fast'', []],
            [[], js ''Growing - fast.'', js ''We are #1 in town.'']])
   \<and> list_all (\<lambda>l. \<not> isSectionHeaderLine l)
       [js ''Acme Business Plan'', js ''Industry: Retail'', js ''Created: 11/2/2026'', [],
        ruleLine, []]
   \<and> list_all (list_all (\<lambda>l. \<not> isSectionHeaderLine l))
       [[[8226] @ js '' Cheap'', [8226] @ js '' Fast'', []],
        [[], js ''Growing - fast.'', js ''We are #1 in town.'']]
   \<and> map title (parseBusinessPlanSections (formatBusinessPlanForExport
         \<lparr>plan_id = js ''1'', plan_title = js ''Acme Business Plan'',
          plan_industry = js ''Retail'', plan_createdAt = js ''11/2/2026'',
          plan_sections =
            [\<lparr>title = js ''Executive Summary'',
              content = [8226] @ js '' Cheap\<newline>'' @ [8226] @ js '' Fast''\<rparr>,
             \<lparr>title = js ''Market Analysis'',
              content = js ''Growing - fast.\<newline>We are #1 in town.''\<rparr>],
          plan_status = complete\<rparr>))
     = [js ''Executive Summary'', js ''Market Analysis'']
   \<and> list_all (\<lambda>b. trim (snd b) = [])
       (sectionBlocks (split (cleanContent (formatBusinessPlanForExport
         \<lparr>plan_id = js ''2'', plan_title = js ''Acme Business Plan'',
          plan_industry = js ''Retail'', plan_createdAt = js ''11/2/2026'',
          plan_sections =
            [\<lparr>title = js ''Business Plan'',
              content = js ''Welcome\<newline>1. Executive Summary''\<rparr>],
          plan_status = complete\<rparr>))))
   \<and> map title (parseBusinessPlanSections (formatBusinessPlanForExport
         \<lparr>plan_id = js ''2'', plan_title = js ''Acme Business Plan'',
          plan_industry = js ''Retail'', plan_createdAt = js ''11/2/2026'',
          plan_sections =
            [\<lparr>title = js ''Business Plan'',
              content = js ''Welcome\<newline>1. Executive Summary''\<rparr>],
          plan_status = complete\<rparr>))
     = [js ''Business Plan'']
   \<and> list_all (\<lambda>sec. title sec \<in> set sectionHeaders \<and> plainText (content sec)
        \<and> list_all (\<lambda>l. \<not> isSectionHeaderLine l) (split (content sec)))
     [\<lparr>title = js ''Executive Summary'', content = js ''We sell widgets.''\<rparr>,
      \<lparr>title = js ''Market Analysis'', content = js ''Growing market.\<newline>No rivals.''\<rparr>]
   \<and> plainText (js ''Acme Business Plan'') \<and> plainText (js ''Retail'')
   \<and> plainText (js ''11/2/2026'')
   \<and> list_all (\<lambda>l. \<not> isSectionHeaderLine l)
       (split (js ''Acme Business Plan\<newline>Industry: Retail\<newline>Created: 11/2/2026''))
   \<and> map title (parseBusinessPlanSections (formatBusinessPlanForExport
         \<lparr>plan_id = js ''3'', plan_title = js ''Acme Business Plan'',
          plan_industry = js ''Retail'', plan_createdAt = js ''11/2/2026'',
          plan_sections =
            [\<lparr>title = js ''Executive Summary'', content = js ''We sell widgets.''\<rparr>,
             \<lparr>title = js ''Market Analysis'',
               content = js ''Growing market.\<newline>No rivals.''\<rparr>],
          plan_status = complete\<rparr>))
     = [js ''Executive Summary'', js ''Market Analysis'']"
proof -
  let ?secsA = "[\<lparr>title = js ''Executive Summary'',
       content = [8226] @ js '' Cheap\<newline>'' @ [8226] @ js '' Fast''\<rparr>,
      \<lparr>title = js ''Market Analysis'',
       content = js ''Growing - fast.\<newline>We are #1 in town.''\<rparr>]"
  let ?docA = "\<lparr>plan_id = js ''1'', plan_title = js ''Acme Business Plan'',
          plan_industry = js ''Retail'', plan_createdAt = js ''11/2/2026'',
          plan_sections = ?secsA, plan_status = complete\<rparr>"
  let ?heading = "[js ''Acme Business Plan'', js ''Industry: Retail'',
      js ''Created: 11/2/2026'', [], ruleLine, []]"
  let ?bodies = "[[[8226] @ js '' Cheap'', [8226] @ js '' Fast'', []],
        [[], js ''Growing - fast.'', js ''We are #1 in town.'']]"
  let ?docB = "\<lparr>plan_id = js ''2'', plan_title = js ''Acme Business Plan'',
          plan_industry = js ''Retail'', plan_createdAt = js ''11/2/2026'',
          plan_sections =
            [\<lparr>title = js ''Business Plan'',
              content = js ''Welcome\<newline>1. Executive Summary''\<rparr>],
          plan_status = complete\<rparr>"
  let ?secsC = "[\<lparr>title = js ''Executive Summary'', content = js ''We sell widgets.''\<rparr>,
      \<lparr>title = js ''Market Analysis'', content = js ''Growing market.\<newline>No rivals.''\<rparr>]"
  let ?docC = "\<lparr>plan_id = js ''3'', plan_title = js ''Acme Business Plan'',
          plan_industry = js ''Retail'', plan_createdAt = js ''11/2/2026'',
          plan_sections = ?secsC, plan_status = complete\<rparr>"
  have a0: "\<forall>sec \<in> set (plan_sections ?docA). 10 \<notin> set (title sec)" by code_simp
  have e0: "split (exportHeading ?docA) @ [[], ruleLine, []]
             @ concat (map (\<lambda>sec. sectionLines sec ([] # split (content sec) @ [[]]))
                 (plan_sections ?docA))
             @ [[]]
     = [js ''Acme Business Plan'', js ''Industry: Retail'', js ''Created: 11/2/2026'', [],
        ruleLine, [],
        js ''Executive Summary'', js ''-----------------'', [],
        [8226] @ js '' Cheap'', [8226] @ js '' Fast'', [],
        js ''Market Analysis'', js ''---------------'', [],
        js ''Growing - fast.'', js ''We are #1 in town.'', [], []]"
    by code_simp
  from export_reparse_keeps_titles[of ?docA] a0
  have "split (formatBusinessPlanForExport ?docA)
     = split (exportHeading ?docA) @ [[], ruleLine, []]
             @ concat (map (\<lambda>sec. sectionLines sec ([] # split (content sec) @ [[]]))
                 (plan_sections ?docA))
             @ [[]]"
    by blast
  then have r0: "split (formatBusinessPlanForExport ?docA)
     = [js ''Acme Business Plan'', js ''Industry: Retail'', js ''Created: 11/2/2026'', [],
        ruleLine, [],
        js ''Executive Summary'', js ''-----------------'', [],
        [8226] @ js '' Cheap'', [8226] @ js '' Fast'', [],
        js ''Market Analysis'', js ''---------------'', [],
        js ''Growing - fast.'', js ''We are #1 in town.'', [], []]"
    unfolding e0 .
  have a1: "list_all (\<lambda>sec. title sec \<in> set sectionHeaders) ?secsA" by code_simp
  have a2: "split (cleanContent (formatBusinessPlanForExport ?docA))
     = ?heading @ concat (map2 sectionLines ?secsA ?bodies)" by code_simp
  have a3: "list_all (\<lambda>l. \<not> isSectionHeaderLine l) ?heading" by code_simp
  have a4: "list_all (list_all (\<lambda>l. \<not> isSectionHeaderLine l)) ?bodies" by code_simp
  have A: "plan_sections ?docA \<noteq> []
      \<and> (\<forall>sec \<in> set (plan_sections ?docA). title sec \<in> set sectionHeaders)
      \<and> length ?bodies = length (plan_sections ?docA)
      \<and> split (cleanContent (formatBusinessPlanForExport ?docA))
          = ?heading @ concat (map2 sectionLines (plan_sections ?docA) ?bodies)
      \<and> (\<forall>l \<in> set ?heading. \<not> isSectionHeaderLine l)
      \<and> (\<forall>body \<in> set ?bodies. \<forall>l \<in> set body. \<not> isSectionHeaderLine l)"
    using a1 a2 a3 a4 by (simp add: list_all_iff)
  from export_reparse_keeps_titles[of ?docA ?bodies ?heading] A
  have rA: "map title (parseBusinessPlanSections (formatBusinessPlanForExport ?docA))
      = [js ''Executive Summary'', js ''Market Analysis'']"
    by simp
  have b1: "list_all (\<lambda>b. trim (snd b) = [])
       (sectionBlocks (split (cleanContent (formatBusinessPlanForExport ?docB))))"
    by code_simp
  have B: "(\<exists>c. plan_sections ?docB = [\<lparr>title = js ''Business Plan'', content = c\<rparr>])
      \<and> (\<forall>b \<in> set (sectionBlocks (split (cleanContent (formatBusinessPlanForExport ?docB)))).
            trim (snd b) = [])"
    using b1 by (simp add: list_all_iff)
  from export_reparse_keeps_titles[of ?docB] B
  have rB: "map title (parseBusinessPlanSections (formatBusinessPlanForExport ?docB))
      = [js ''Business Plan'']"
    by simp
  have c1: "list_all (\<lambda>sec. title sec \<in> set sectionHeaders \<and> plainText (content sec)
        \<and> list_all (\<lambda>l. \<not> isSectionHeaderLine l) (split (content sec))) ?secsC"
    by code_simp
  have c2: "plainText (js ''Acme Business Plan'')" "plainText (js ''Retail'')"
    "plainText (js ''11/2/2026'')" by code_simp+
  have c3: "list_all (\<lambda>l. \<not> isSectionHeaderLine l)
      (split (js ''Acme Business Plan\<newline>Industry: Retail\<newline>Created: 11/2/2026''))"
    by code_simp
  have hd: "exportHeading ?docC
      = js ''Acme Business Plan\<newline>Industry: Retail\<newline>Created: 11/2/2026''"
    by code_simp
  have c4: "\<forall>l \<in> set (split (exportHeading ?docC)). \<not> isSectionHeaderLine l"
    unfolding hd using c3 by (simp only: list_all_iff)
  have C: "((plan_sections ?docC \<noteq> []
          \<and> (\<forall>sec \<in> set (plan_sections ?docC). title sec \<in> set sectionHeaders))
        \<or> (\<exists>c. plan_sections ?docC = [\<lparr>title = js ''Business Plan'', content = c\<rparr>]))
      \<and> (\<forall>sec \<in> set (plan_sections ?docC). plainText (content sec)
            \<and> (\<forall>l \<in> set (split (content sec)). \<not> isSectionHeaderLine l))
      \<and> plainText (plan_title ?docC) \<and> plainText (plan_industry ?docC)
      \<and> plainText (plan_createdAt ?docC)
      \<and> (\<forall>l \<in> set (split (exportHeading ?docC)). \<not> isSectionHeaderLine l)"
    using c1 c2 c4 by (simp add: list_all_iff)
  from export_reparse_keeps_titles[of ?docC] C
  have rC: "map title (parseBusinessPlanSections (formatBusinessPlanForExport ?docC))
      = [js ''Executive Summary'', js ''Market Analysis'']"
    by simp
  from r0 a1 a2 a3 a4 rA b1 rB c1 c2 c3 rC show ?thesis by blast
qed

end
